theory Spec2Isabelle
  imports Main "HOL-Library.AList"
begin

section \<open>Paths\<close>

text \<open>
  The TypeScript handles paths as strings. Here an absolute path is the list of its
  segments: \<^verbatim>\<open>/w/lib/util.ts\<close> is \<open>[''w'', ''lib'', ''util.ts'']\<close>, and the
  filesystem root \<^verbatim>\<open>/\<close> is \<open>[]\<close>.
\<close>

type_synonym path = "string list"

text \<open>\<^verbatim>\<open>path.normalize\<close> on an absolute path: \<^verbatim>\<open>.\<close> and empty segments
  vanish, \<^verbatim>\<open>..\<close> removes the segment before it (and stays at the root).\<close>

definition norm_step :: "path \<Rightarrow> string \<Rightarrow> path" where
  "norm_step acc seg =
     (if seg = ''.'' \<or> seg = '''' then acc
      else if seg = ''..'' then butlast acc
      else acc @ [seg])"

definition normalize :: "path \<Rightarrow> path" where
  "normalize p = foldl norm_step [] p"

text \<open>\<^verbatim>\<open>path.join(a, b)\<close>: concatenation, then normalisation.\<close>

definition path_join :: "path \<Rightarrow> path \<Rightarrow> path" where
  "path_join a b = normalize (a @ b)"

text \<open>\<^verbatim>\<open>path.relative(from, to)\<close>: the common prefix is dropped, every segment left
  of \<open>from\<close> becomes \<^verbatim>\<open>..\<close>, and what is left of \<open>to\<close> follows.\<close>

fun path_relative :: "path \<Rightarrow> path \<Rightarrow> path" where
  "path_relative (a # as) (b # bs) =
     (if a = b then path_relative as bs
      else replicate (length (a # as)) ''..'' @ (b # bs))"
| "path_relative as [] = replicate (length as) ''..''"
| "path_relative [] bs = bs"

text \<open>A segment list written back as the string the template literals
  \<^verbatim>\<open>`a/${rel}`\<close> and \<^verbatim>\<open>`b/${rel}`\<close> embed.\<close>

fun render :: "path \<Rightarrow> string" where
  "render [] = ''''"
| "render [s] = s"
| "render (s # t # p) = s @ ''/'' @ render (t # p)"

section \<open>The filesystem of Node's \<^verbatim>\<open>fs\<close> module\<close>

text \<open>
  The disk is a tree: a node is a regular file with its text, or a directory with its
  entries in listing order. The calls the extension makes are \<^verbatim>\<open>existsSync\<close>,
  \<^verbatim>\<open>readFileSync\<close>, \<^verbatim>\<open>readdirSync\<close>, \<^verbatim>\<open>writeFileSync\<close> and
  \<^verbatim>\<open>unlinkSync\<close>; each raising call returns its error code on the left.
\<close>

datatype node = File string | Dir dirents
and dirents = DNil | DCons string node dirents

datatype errno = ENOENT | EISDIR | ENOTDIR

fun find_entry :: "dirents \<Rightarrow> string \<Rightarrow> node option" where
  "find_entry DNil s = None"
| "find_entry (DCons n c rest) s = (if n = s then Some c else find_entry rest s)"

text \<open>Replace the entry called \<open>s\<close> where it stands, or add it at the end.\<close>

fun set_entry :: "dirents \<Rightarrow> string \<Rightarrow> node \<Rightarrow> dirents" where
  "set_entry DNil s c = DCons s c DNil"
| "set_entry (DCons n c' rest) s c =
     (if n = s then DCons n c rest else DCons n c' (set_entry rest s c))"

fun remove_entry :: "dirents \<Rightarrow> string \<Rightarrow> dirents" where
  "remove_entry DNil s = DNil"
| "remove_entry (DCons n c rest) s =
     (if n = s then remove_entry rest s else DCons n c (remove_entry rest s))"

fun lookup :: "node \<Rightarrow> path \<Rightarrow> node option" where
  "lookup n [] = Some n"
| "lookup (File c) (s # p) = None"
| "lookup (Dir es) (s # p) =
     (case find_entry es s of None \<Rightarrow> None | Some ch \<Rightarrow> lookup ch p)"

definition existsSync :: "node \<Rightarrow> path \<Rightarrow> bool" where
  "existsSync d p = (lookup d p \<noteq> None)"

definition readFileSync :: "node \<Rightarrow> path \<Rightarrow> errno + string" where
  "readFileSync d p =
     (case lookup d p of
        None \<Rightarrow> Inl ENOENT
      | Some (Dir es) \<Rightarrow> Inl EISDIR
      | Some (File c) \<Rightarrow> Inr c)"

definition readdirSync :: "node \<Rightarrow> path \<Rightarrow> errno + dirents" where
  "readdirSync d p =
     (case lookup d p of
        None \<Rightarrow> Inl ENOENT
      | Some (File c) \<Rightarrow> Inl ENOTDIR
      | Some (Dir es) \<Rightarrow> Inr es)"

text \<open>\<^verbatim>\<open>writeFileSync\<close> creates or overwrites a regular file; the directory that
  is to hold it must exist, and the path must not name a directory.\<close>

fun writeFileSync :: "node \<Rightarrow> path \<Rightarrow> string \<Rightarrow> errno + node" where
  "writeFileSync (File x) [] c = Inr (File c)"
| "writeFileSync (Dir es) [] c = Inl EISDIR"
| "writeFileSync (File x) (s # p) c = Inl ENOTDIR"
| "writeFileSync (Dir es) (s # p) c =
     (case find_entry es s of
        None \<Rightarrow> (if p = [] then Inr (Dir (set_entry es s (File c))) else Inl ENOENT)
      | Some ch \<Rightarrow>
          (case writeFileSync ch p c of
             Inl e \<Rightarrow> Inl e
           | Inr ch' \<Rightarrow> Inr (Dir (set_entry es s ch'))))"

text \<open>\<^verbatim>\<open>unlinkSync\<close> removes a regular file and raises on a missing path or a
  directory.\<close>

fun unlinkSync :: "node \<Rightarrow> path \<Rightarrow> errno + node" where
  "unlinkSync n [] = Inl EISDIR"
| "unlinkSync (File x) (s # p) = Inl ENOTDIR"
| "unlinkSync (Dir es) [s] =
     (case find_entry es s of
        None \<Rightarrow> Inl ENOENT
      | Some (Dir sub) \<Rightarrow> Inl EISDIR
      | Some (File x) \<Rightarrow> Inr (Dir (remove_entry es s)))"
| "unlinkSync (Dir es) (s # t # p) =
     (case find_entry es s of
        None \<Rightarrow> Inl ENOENT
      | Some ch \<Rightarrow>
          (case unlinkSync ch (t # p) of
             Inl e \<Rightarrow> Inl e
           | Inr ch' \<Rightarrow> Inr (Dir (set_entry es s ch'))))"

text \<open>What a reader of \<open>p\<close> sees: the text of the regular file there, if there is one.\<close>

definition file_at :: "node \<Rightarrow> path \<Rightarrow> string option" where
  "file_at d p = (case lookup d p of Some (File c) \<Rightarrow> Some c | _ \<Rightarrow> None)"

section \<open>The diff manager (\<^verbatim>\<open>DiffManager\<close>)\<close>

datatype status = Pending | Accepted | Rejected

record FileDiff =
  filePath :: path
  relativePath :: path
  before :: string
  after :: string
  patch :: string
  status :: status
  isNew :: bool
  isDeleted :: bool

text \<open>
  What the class takes from outside: the first workspace folder of the editor (if one is
  open), the working directory that Node resolves the empty root against, and
  \<^verbatim>\<open>createTwoFilesPatch\<close> of the \<^verbatim>\<open>diff\<close> package, which is a parameter here.
\<close>

record env =
  workspaceFolder :: "path option"
  cwd :: path
  createTwoFilesPatch :: "string \<Rightarrow> string \<Rightarrow> string \<Rightarrow> string \<Rightarrow> string \<Rightarrow> string \<Rightarrow> string"

text \<open>The getter \<^verbatim>\<open>workspaceRoot\<close> yields the folder's path or the empty string;
  \<open>None\<close> is the empty string, which \<^verbatim>\<open>path.join\<close> and \<^verbatim>\<open>path.relative\<close>
  treat as the working directory.\<close>

definition workspaceRoot :: "env \<Rightarrow> path option" where
  "workspaceRoot e = workspaceFolder e"

definition rootDir :: "env \<Rightarrow> path" where
  "rootDir e = (case workspaceRoot e of None \<Rightarrow> cwd e | Some r \<Rightarrow> r)"

text \<open>
  The two maps of the class are association lists in insertion order (the order a
  JavaScript \<^verbatim>\<open>Map\<close> iterates in; \<^verbatim>\<open>set\<close> on a present key keeps its place).
  \<open>fired\<close> logs the payload of every \<^verbatim>\<open>_onChangesReady.fire\<close>, and \<open>disk\<close> is
  the filesystem the calls read and write.
\<close>

record state =
  snapshots :: "(path \<times> string) list"
  diffs :: "(path \<times> FileDiff) list"
  fired :: "FileDiff list list"
  disk :: node

text \<open>A call returns, or an exception of \<^verbatim>\<open>fs\<close> leaves it with the state as mutated
  so far.\<close>

datatype 'a outcome = Done 'a | Threw errno state

fun state_of :: "state outcome \<Rightarrow> state" where
  "state_of (Done s) = s"
| "state_of (Threw e s) = s"

definition snapshotOne :: "path \<Rightarrow> state \<Rightarrow> state outcome" where
  "snapshotOne fp s =
     (if existsSync (disk s) fp then
        (case readFileSync (disk s) fp of
           Inl e \<Rightarrow> Threw e s
         | Inr c \<Rightarrow> Done (s\<lparr>snapshots := AList.update fp c (snapshots s)\<rparr>))
      else Done (s\<lparr>snapshots := AList.update fp '''' (snapshots s)\<rparr>))"

fun snapshotFiles :: "path list \<Rightarrow> state \<Rightarrow> state outcome" where
  "snapshotFiles [] s = Done s"
| "snapshotFiles (fp # fps) s =
     (case snapshotOne fp s of
        Threw e s' \<Rightarrow> Threw e s'
      | Done s' \<Rightarrow> snapshotFiles fps s')"

definition ignore :: "string list" where
  "ignore = [''node_modules'', ''.git'', ''dist'', ''out'', ''.claude'']"

definition textExts :: "string list" where
  "textExts =
     [''.ts'', ''.tsx'', ''.js'', ''.jsx'', ''.json'', ''.md'', ''.txt'', ''.css'', ''.scss'',
      ''.html'', ''.xml'', ''.yaml'', ''.yml'', ''.py'', ''.go'', ''.rs'', ''.java'', ''.c'',
      ''.cpp'', ''.h'', ''.sh'', ''.env'', ''.toml'', ''.ini'', ''.sql'']"

text \<open>\<^verbatim>\<open>path.extname\<close>: from the last dot of the last segment to its end; empty when
  there is no dot, when the only dot is the first character, and for \<^verbatim>\<open>..\<close>.\<close>

definition basename :: "path \<Rightarrow> string" where
  "basename p = (if p = [] then '''' else last p)"

definition extname :: "path \<Rightarrow> string" where
  "extname p =
     (let b = basename p;
          suf = takeWhile (\<lambda>c. c \<noteq> CHR ''.'') (rev b);
          pre = drop (length suf + 1) (rev b)
      in if CHR ''.'' \<notin> set b then ''''
         else if pre = [] then ''''
         else if b = ''..'' then ''''
         else CHR ''.'' # rev suf)"

text \<open>\<^verbatim>\<open>toLowerCase\<close> on the letters A to Z; every other character is left as it is.\<close>

definition toLowerCase :: "string \<Rightarrow> string" where
  "toLowerCase str =
     map (\<lambda>c. case map_of (zip ''ABCDEFGHIJKLMNOPQRSTUVWXYZ'' ''abcdefghijklmnopqrstuvwxyz'') c of
                 None \<Rightarrow> c | Some l \<Rightarrow> l) str"

definition isTextFile :: "path \<Rightarrow> bool" where
  "isTextFile fp = (toLowerCase (extname fp) \<in> set textExts)"

text \<open>
  The loop of \<^verbatim>\<open>snapshotDirectory\<close> over the entries that \<^verbatim>\<open>readdirSync(dir)\<close>
  returned. Nothing writes the disk during the walk, so the listing of a subdirectory and
  the text of a file are the ones the entry itself holds.
\<close>

fun snapshotEntries :: "path \<Rightarrow> dirents \<Rightarrow> state \<Rightarrow> state" where
  "snapshotEntries dir DNil s = s"
| "snapshotEntries dir (DCons name (Dir sub) rest) s =
     (if name \<in> set ignore then snapshotEntries dir rest s
      else snapshotEntries dir rest (snapshotEntries (path_join dir [name]) sub s))"
| "snapshotEntries dir (DCons name (File c) rest) s =
     (if name \<in> set ignore then snapshotEntries dir rest s
      else if isTextFile (path_join dir [name])
        then snapshotEntries dir rest
               (s\<lparr>snapshots := AList.update (path_join dir [name]) c (snapshots s)\<rparr>)
      else snapshotEntries dir rest s)"

definition snapshotDirectory :: "path \<Rightarrow> state \<Rightarrow> state outcome" where
  "snapshotDirectory dir s =
     (case readdirSync (disk s) dir of
        Inl e \<Rightarrow> Threw e s
      | Inr es \<Rightarrow> Done (snapshotEntries dir es s))"

definition snapshotWorkspace :: "env \<Rightarrow> state \<Rightarrow> state outcome" where
  "snapshotWorkspace e s =
     (case workspaceRoot e of
        None \<Rightarrow> Done s
      | Some root \<Rightarrow> snapshotDirectory root s)"

definition getPendingDiffs :: "state \<Rightarrow> FileDiff list" where
  "getPendingDiffs s = filter (\<lambda>d. status d = Pending) (map snd (diffs s))"

definition getAllDiffs :: "state \<Rightarrow> FileDiff list" where
  "getAllDiffs s = map snd (diffs s)"

definition hasPendingDiffs :: "state \<Rightarrow> bool" where
  "hasPendingDiffs s = (length (getPendingDiffs s) > 0)"

text \<open>\<^verbatim>\<open>if (this.diffs.size > 0) this._onChangesReady.fire(this.getPendingDiffs())\<close>\<close>

definition fireIfAny :: "state \<Rightarrow> state" where
  "fireIfAny s =
     (if length (diffs s) > 0 then s\<lparr>fired := fired s @ [getPendingDiffs s]\<rparr> else s)"

definition snapshotGet :: "state \<Rightarrow> path \<Rightarrow> string" where
  "snapshotGet s fp = (case map_of (snapshots s) fp of None \<Rightarrow> '''' | Some b \<Rightarrow> b)"

text \<open>\<^verbatim>\<open>fs.existsSync(p) ? fs.readFileSync(p, 'utf8') : ''\<close>\<close>

definition readOrEmpty :: "node \<Rightarrow> path \<Rightarrow> errno + string" where
  "readOrEmpty d p = (if existsSync d p then readFileSync d p else Inr '''')"

definition makePatch :: "env \<Rightarrow> path \<Rightarrow> string \<Rightarrow> string \<Rightarrow> string" where
  "makePatch e rel b a =
     createTwoFilesPatch e (''a/'' @ render rel) (''b/'' @ render rel) b a '''' ''''"

text \<open>The record that \<^verbatim>\<open>computeDiffs\<close> stores for \<open>fp\<close>.\<close>

definition computedDiff :: "env \<Rightarrow> path \<Rightarrow> string \<Rightarrow> string \<Rightarrow> FileDiff" where
  "computedDiff e fp b a =
     (let rel = path_relative (rootDir e) fp in
      \<lparr>filePath = fp, relativePath = rel, before = b, after = a,
       patch = makePatch e rel b a, status = Pending,
       isNew = (b = '''' \<and> a \<noteq> ''''), isDeleted = (b \<noteq> '''' \<and> a = '''')\<rparr>)"

text \<open>One round of the loop of \<^verbatim>\<open>computeDiffs\<close>.\<close>

definition computeOne :: "env \<Rightarrow> path \<Rightarrow> state \<Rightarrow> state outcome" where
  "computeOne e fp s =
     (let b = snapshotGet s fp in
      case readOrEmpty (disk s) fp of
        Inl err \<Rightarrow> Threw err s
      | Inr a \<Rightarrow>
          if b = a then Done s
          else Done (s\<lparr>diffs := AList.update fp (computedDiff e fp b a) (diffs s)\<rparr>))"

fun computeLoop :: "env \<Rightarrow> path list \<Rightarrow> state \<Rightarrow> state outcome" where
  "computeLoop e [] s = Done s"
| "computeLoop e (fp # fps) s =
     (case computeOne e fp s of
        Threw err s' \<Rightarrow> Threw err s'
      | Done s' \<Rightarrow> computeLoop e fps s')"

text \<open>\<^verbatim>\<open>computeDiffs(changedPaths?)\<close>; \<open>None\<close> is the omitted argument. The value
  returned is the list of pending records.\<close>

definition computeDiffs :: "env \<Rightarrow> path list option \<Rightarrow> state \<Rightarrow> (FileDiff list \<times> state) outcome" where
  "computeDiffs e changedPaths s =
     (let paths = (case changedPaths of None \<Rightarrow> map fst (snapshots s) | Some ps \<Rightarrow> ps) in
      case computeLoop e paths (s\<lparr>diffs := []\<rparr>) of
        Threw err s' \<Rightarrow> Threw err s'
      | Done s' \<Rightarrow> (let s'' = fireIfAny s' in Done (getPendingDiffs s'', s'')))"

text \<open>The record that \<^verbatim>\<open>loadProposedChanges\<close> stores for a staged file.\<close>

definition proposedDiff :: "env \<Rightarrow> path \<Rightarrow> path \<Rightarrow> string \<Rightarrow> string \<Rightarrow> FileDiff" where
  "proposedDiff e actual rel b a =
     \<lparr>filePath = actual, relativePath = rel, before = b, after = a,
      patch = makePatch e rel b a, status = Pending,
      isNew = (b = ''''), isDeleted = False\<rparr>"

definition actualOf :: "env \<Rightarrow> path \<Rightarrow> path \<Rightarrow> path" where
  "actualOf e proposedDir full = path_join (rootDir e) (path_relative proposedDir full)"

text \<open>The \<^verbatim>\<open>else\<close> branch of \<^verbatim>\<open>walk\<close>: one staged file at \<open>full\<close> with text \<open>a\<close>.\<close>

definition stageFile :: "env \<Rightarrow> path \<Rightarrow> path \<Rightarrow> string \<Rightarrow> state \<Rightarrow> state outcome" where
  "stageFile e proposedDir full a s =
     (let rel = path_relative proposedDir full;
          actual = actualOf e proposedDir full in
      case readOrEmpty (disk s) actual of
        Inl err \<Rightarrow> Threw err s
      | Inr b \<Rightarrow>
          if b \<noteq> a
          then Done (s\<lparr>diffs := AList.update actual (proposedDiff e actual rel b a) (diffs s)\<rparr>)
          else Done s)"

text \<open>The closure \<^verbatim>\<open>walk\<close>, over the entries that \<^verbatim>\<open>readdirSync(dir)\<close> returned.\<close>

fun walk :: "env \<Rightarrow> path \<Rightarrow> path \<Rightarrow> dirents \<Rightarrow> state \<Rightarrow> state outcome" where
  "walk e proposedDir dir DNil s = Done s"
| "walk e proposedDir dir (DCons name (Dir sub) rest) s =
     (case walk e proposedDir (path_join dir [name]) sub s of
        Threw err s' \<Rightarrow> Threw err s'
      | Done s' \<Rightarrow> walk e proposedDir dir rest s')"
| "walk e proposedDir dir (DCons name (File a) rest) s =
     (case stageFile e proposedDir (path_join dir [name]) a s of
        Threw err s' \<Rightarrow> Threw err s'
      | Done s' \<Rightarrow> walk e proposedDir dir rest s')"

definition loadProposedChanges :: "env \<Rightarrow> path \<Rightarrow> state \<Rightarrow> state outcome" where
  "loadProposedChanges e proposedDir s =
     (if \<not> existsSync (disk s) proposedDir then Done s
      else case readdirSync (disk s) proposedDir of
             Inl err \<Rightarrow> Threw err s
           | Inr es \<Rightarrow>
               (case walk e proposedDir proposedDir es s of
                  Threw err s' \<Rightarrow> Threw err s'
                | Done s' \<Rightarrow> Done (fireIfAny s')))"

definition acceptFile :: "path \<Rightarrow> state \<Rightarrow> state" where
  "acceptFile fp s =
     (case map_of (diffs s) fp of
        None \<Rightarrow> s
      | Some d \<Rightarrow>
          s\<lparr>diffs := AList.update fp (d\<lparr>status := Accepted\<rparr>) (diffs s),
            snapshots := AList.update fp (after d) (snapshots s)\<rparr>)"

definition rejectFile :: "path \<Rightarrow> state \<Rightarrow> state outcome" where
  "rejectFile fp s =
     (case map_of (diffs s) fp of
        None \<Rightarrow> Done s
      | Some d \<Rightarrow>
          (case (if isNew d then unlinkSync (disk s) fp
                 else writeFileSync (disk s) fp (before d)) of
             Inl err \<Rightarrow> Threw err s
           | Inr dk \<Rightarrow>
               Done (s\<lparr>disk := dk,
                        diffs := AList.update fp (d\<lparr>status := Rejected\<rparr>) (diffs s)\<rparr>)))"

text \<open>
  The loops of \<^verbatim>\<open>acceptAll\<close> and \<^verbatim>\<open>rejectAll\<close> visit the entries of the map in
  order; neither adds nor removes an entry, so the keys to visit are those at the start.
  Each visit reads the entry as it is by then.
\<close>

fun acceptEach :: "path list \<Rightarrow> state \<Rightarrow> state" where
  "acceptEach [] s = s"
| "acceptEach (k # ks) s =
     (case map_of (diffs s) k of
        None \<Rightarrow> acceptEach ks s
      | Some d \<Rightarrow>
          if status d = Pending then acceptEach ks (acceptFile (filePath d) s)
          else acceptEach ks s)"

definition acceptAll :: "state \<Rightarrow> state" where
  "acceptAll s = acceptEach (map fst (diffs s)) s"

fun rejectEach :: "path list \<Rightarrow> state \<Rightarrow> state outcome" where
  "rejectEach [] s = Done s"
| "rejectEach (k # ks) s =
     (case map_of (diffs s) k of
        None \<Rightarrow> rejectEach ks s
      | Some d \<Rightarrow>
          if status d = Pending then
            (case rejectFile (filePath d) s of
               Threw err s' \<Rightarrow> Threw err s'
             | Done s' \<Rightarrow> rejectEach ks s')
          else rejectEach ks s)"

definition rejectAll :: "state \<Rightarrow> state outcome" where
  "rejectAll s = rejectEach (map fst (diffs s)) s"

definition clearDiffs :: "state \<Rightarrow> state" where
  "clearDiffs s = s\<lparr>diffs := [], snapshots := []\<rparr>"

section \<open>The activity monitor (\<^verbatim>\<open>ClaudeWatcher\<close>)\<close>

text \<open>The mode is \<^verbatim>\<open>modeManager.currentMode\<close>, read anew by each handler; the class
  that holds it is outside this development, so the handlers take the mode as an
  argument.\<close>

datatype mode = Auto | Propose | Ask

datatype fsevent = Add | Change | Unlink

text \<open>A \<^verbatim>\<open>chokidar\<close> watcher as the class sets it up: the directory watched, the
  alternatives of the \<^verbatim>\<open>ignored\<close> pattern, the events that have a handler, and
  whether \<^verbatim>\<open>close()\<close> was called.\<close>

record fswatch =
  watched :: path
  ignored :: "string list"
  listens :: "fsevent list"
  closed :: bool

record watcher =
  active :: bool
  isClaudeActive :: bool
  changedFiles :: "path list"
  fsWatcher :: "fswatch option"

text \<open>\<^verbatim>\<open>this.fsWatcher?.close()\<close>\<close>

definition closeWatcher :: "watcher \<Rightarrow> watcher" where
  "closeWatcher w =
     (case fsWatcher w of
        None \<Rightarrow> w
      | Some fw \<Rightarrow> w\<lparr>fsWatcher := Some (fw\<lparr>closed := True\<rparr>)\<rparr>)"

text \<open>The handler \<^verbatim>\<open>(fp) => this.changedFiles.add(fp)\<close>, run when the watcher
  reports event \<open>ev\<close> for \<open>fp\<close>. Which paths an open watcher reports is
  \<^verbatim>\<open>chokidar\<close>'s business; a closed watcher, or one without a handler for the event,
  runs nothing.\<close>

definition notify :: "fsevent \<Rightarrow> path \<Rightarrow> watcher \<Rightarrow> watcher" where
  "notify ev fp w =
     (case fsWatcher w of
        None \<Rightarrow> w
      | Some fw \<Rightarrow>
          if closed fw \<or> ev \<notin> set (listens fw) then w
          else if fp \<in> set (changedFiles w) then w
          else w\<lparr>changedFiles := changedFiles w @ [fp]\<rparr>)"

definition onClaudeStarted :: "env \<Rightarrow> mode \<Rightarrow> path \<Rightarrow> watcher \<times> state \<Rightarrow> watcher \<times> state outcome" where
  "onClaudeStarted e m root ws =
     (let w = (fst ws)\<lparr>isClaudeActive := True, changedFiles := []\<rparr>; s = snd ws in
      case m of
        Propose \<Rightarrow>
          (w\<lparr>fsWatcher := Some \<lparr>watched = path_join root [''.claude'', ''proposed''],
                                ignored = [], listens = [Add, Change], closed = False\<rparr>\<rparr>,
           Done s)
      | Auto \<Rightarrow>
          (case snapshotWorkspace e s of
             Threw err s' \<Rightarrow> (w, Threw err s')
           | Done s' \<Rightarrow>
               (w\<lparr>fsWatcher := Some \<lparr>watched = root, ignored = ignore,
                                     listens = [Add, Change, Unlink], closed = False\<rparr>\<rparr>,
                Done s'))
      | Ask \<Rightarrow> (w, snapshotWorkspace e s))"

definition onClaudeFinished :: "env \<Rightarrow> mode \<Rightarrow> path \<Rightarrow> path \<Rightarrow> watcher \<times> state \<Rightarrow> watcher \<times> state outcome" where
  "onClaudeFinished e m root proposedDir ws =
     (let w = closeWatcher ((fst ws)\<lparr>isClaudeActive := False\<rparr>); s = snd ws in
      case m of
        Propose \<Rightarrow> (w, loadProposedChanges e proposedDir s)
      | _ \<Rightarrow>
          (w, case computeDiffs e (Some (changedFiles w)) s of
                Threw err s' \<Rightarrow> Threw err s'
              | Done r \<Rightarrow> Done (snd r)))"

text \<open>
  One round of the 500 ms poll of \<^verbatim>\<open>watchClaudeActivity\<close>. \<open>status_of\<close> stands for
  \<^verbatim>\<open>JSON.parse(text).status\<close>, \<open>None\<close> when that raises. The \<^verbatim>\<open>catch {}\<close>
  around the handlers drops their exception and keeps what they had done.
\<close>

definition pollTick :: "env \<Rightarrow> (string \<Rightarrow> string option) \<Rightarrow> mode \<Rightarrow> watcher \<times> state \<Rightarrow> watcher \<times> state" where
  "pollTick e status_of m ws =
     (if \<not> active (fst ws) then ws
      else case workspaceFolder e of
        None \<Rightarrow> ws
      | Some root \<Rightarrow>
          (let activityFile = path_join root [''.claude'', ''activity.json''];
               proposedDir = path_join root [''.claude'', ''proposed''] in
           if \<not> existsSync (disk (snd ws)) activityFile then ws
           else case readFileSync (disk (snd ws)) activityFile of
             Inl err \<Rightarrow> ws
           | Inr text \<Rightarrow>
               (case status_of text of
                  None \<Rightarrow> ws
                | Some st \<Rightarrow>
                    if st = ''running'' \<and> \<not> isClaudeActive (fst ws)
                    then (let r = onClaudeStarted e m root ws in (fst r, state_of (snd r)))
                    else if st = ''idle'' \<and> isClaudeActive (fst ws)
                    then (let r = onClaudeFinished e m root proposedDir ws
                          in (fst r, state_of (snd r)))
                    else ws)))"

section \<open>Notions used in the statements\<close>

text \<open>The staged files that \<^verbatim>\<open>walk\<close> meets below \<open>dir\<close>, each with its path and
  text, in the order of the walk.\<close>

fun stagedFiles :: "path \<Rightarrow> dirents \<Rightarrow> (path \<times> string) list" where
  "stagedFiles dir DNil = []"
| "stagedFiles dir (DCons name (Dir sub) rest) =
     stagedFiles (path_join dir [name]) sub @ stagedFiles dir rest"
| "stagedFiles dir (DCons name (File a) rest) =
     (path_join dir [name], a) # stagedFiles dir rest"

text \<open>Every record is stored under its own \<open>filePath\<close>, as both places that create
  records do.\<close>

definition keyed :: "(path \<times> FileDiff) list \<Rightarrow> bool" where
  "keyed ds = list_all (\<lambda>kd. filePath (snd kd) = fst kd) ds"

text \<open>The state a call of \<^verbatim>\<open>computeDiffs\<close> ends in, returned or raised.\<close>

fun final :: "(FileDiff list \<times> state) outcome \<Rightarrow> state" where
  "final (Done r) = snd r"
| "final (Threw e s) = s"

text \<open>The paths \<^verbatim>\<open>computeDiffs\<close> goes through: \<^verbatim>\<open>changedPaths ?? [...this.snapshots.keys()]\<close>.\<close>

definition pathsOf :: "path list option \<Rightarrow> state \<Rightarrow> path list" where
  "pathsOf changedPaths s =
     (case changedPaths of None \<Rightarrow> map fst (snapshots s) | Some ps \<Rightarrow> ps)"

text \<open>The classification of a record that the data model asks for, and the one that
  holds of staged records, which never count as deletions.\<close>

definition classified :: "FileDiff \<Rightarrow> bool" where
  "classified d =
     (before d \<noteq> after d \<and> \<not> (isNew d \<and> isDeleted d) \<and>
      (isNew d \<longleftrightarrow> before d = '''' \<and> after d \<noteq> '''') \<and>
      (isDeleted d \<longleftrightarrow> before d \<noteq> '''' \<and> after d = ''''))"

definition classified_staged :: "FileDiff \<Rightarrow> bool" where
  "classified_staged d =
     (before d \<noteq> after d \<and> \<not> (isNew d \<and> isDeleted d) \<and>
      (isNew d \<longleftrightarrow> before d = '''' \<and> after d \<noteq> '''') \<and>
      \<not> isDeleted d)"



section \<open>Example sessions\<close>

text \<open>A stand-in for the patch generator, a workspace at \<^verbatim>\<open>/w\<close>, and the state of a
  fresh \<^verbatim>\<open>DiffManager\<close> over a given disk.\<close>

definition patch0 :: "string \<Rightarrow> string \<Rightarrow> string \<Rightarrow> string \<Rightarrow> string \<Rightarrow> string \<Rightarrow> string" where
  "patch0 oldName newName b a oldHeader newHeader = ''--- '' @ oldName @ '' +++ '' @ newName"

definition env0 :: env where
  "env0 = \<lparr>workspaceFolder = Some [''w''], cwd = [], createTwoFilesPatch = patch0\<rparr>"

definition init :: "node \<Rightarrow> state" where
  "init d = \<lparr>snapshots = [], diffs = [], fired = [], disk = d\<rparr>"

definition proposed0 :: path where
  "proposed0 = [''w'', ''.claude'', ''proposed'']"

text \<open>
  A workspace with \<^verbatim>\<open>/w/old.ts\<close> holding \<^verbatim>\<open>abc\<close>, and a staging directory with a
  new file \<^verbatim>\<open>new.ts\<close> and an emptied \<^verbatim>\<open>old.ts\<close>; \<open>staged_session\<close> is the state
  after \<^verbatim>\<open>loadProposedChanges\<close> there.
\<close>

definition disk_staged :: node where
  "disk_staged =
     Dir (DCons ''w'' (Dir
       (DCons ''old.ts'' (File ''abc'')
       (DCons ''.claude'' (Dir
          (DCons ''proposed'' (Dir
             (DCons ''new.ts'' (File ''x'')
             (DCons ''old.ts'' (File '''') DNil))) DNil)) DNil))) DNil)"

definition new_rec :: FileDiff where
  "new_rec =
     \<lparr>filePath = [''w'', ''new.ts''], relativePath = [''new.ts''], before = '''',
      after = ''x'', patch = ''--- a/new.ts +++ b/new.ts'', status = Pending,
      isNew = True, isDeleted = False\<rparr>"

definition old_rec :: FileDiff where
  "old_rec =
     \<lparr>filePath = [''w'', ''old.ts''], relativePath = [''old.ts''], before = ''abc'',
      after = '''', patch = ''--- a/old.ts +++ b/old.ts'', status = Pending,
      isNew = False, isDeleted = False\<rparr>"

definition staged_session :: state where
  "staged_session =
     \<lparr>snapshots = [],
      diffs = [([''w'', ''new.ts''], new_rec), ([''w'', ''old.ts''], old_rec)],
      fired = [[new_rec, old_rec]], disk = disk_staged\<rparr>"

text \<open>
  A workspace before and after the agent ran: \<^verbatim>\<open>a.ts\<close> was edited, \<^verbatim>\<open>b.ts\<close> created
  and \<^verbatim>\<open>c.ts\<close> deleted, and nothing was staged (the staging directory is empty). The activity marker holds the bare status; its parser is the
  parameter of \<open>pollTick\<close>. \<open>auto_session\<close> is the state after a run in \<open>Auto\<close>
  mode in which the watcher reported the three paths.
\<close>

definition disk_before :: node where
  "disk_before =
     Dir (DCons ''w'' (Dir
       (DCons ''a.ts'' (File ''hello'')
       (DCons ''c.ts'' (File ''gone'')
       (DCons ''.claude'' (Dir
          (DCons ''activity.json'' (File ''running'') DNil)) DNil)))) DNil)"

definition disk_after :: node where
  "disk_after =
     Dir (DCons ''w'' (Dir
       (DCons ''a.ts'' (File ''hello world'')
       (DCons ''.claude'' (Dir
          (DCons ''activity.json'' (File ''idle'')
          (DCons ''proposed'' (Dir DNil) DNil)))
       (DCons ''b.ts'' (File ''new'') DNil)))) DNil)"

definition watcher0 :: watcher where
  "watcher0 = \<lparr>active = True, isClaudeActive = False, changedFiles = [], fsWatcher = None\<rparr>"

definition a_rec :: FileDiff where
  "a_rec =
     \<lparr>filePath = [''w'', ''a.ts''], relativePath = [''a.ts''], before = ''hello'',
      after = ''hello world'', patch = ''--- a/a.ts +++ b/a.ts'', status = Pending,
      isNew = False, isDeleted = False\<rparr>"

definition b_rec :: FileDiff where
  "b_rec =
     \<lparr>filePath = [''w'', ''b.ts''], relativePath = [''b.ts''], before = '''',
      after = ''new'', patch = ''--- a/b.ts +++ b/b.ts'', status = Pending,
      isNew = True, isDeleted = False\<rparr>"

definition c_rec :: FileDiff where
  "c_rec =
     \<lparr>filePath = [''w'', ''c.ts''], relativePath = [''c.ts''], before = ''gone'',
      after = '''', patch = ''--- a/c.ts +++ b/c.ts'', status = Pending,
      isNew = False, isDeleted = True\<rparr>"

definition snaps0 :: "(path \<times> string) list" where
  "snaps0 = [([''w'', ''a.ts''], ''hello''), ([''w'', ''c.ts''], ''gone'')]"

definition auto_session :: state where
  "auto_session =
     \<lparr>snapshots = snaps0,
      diffs = [([''w'', ''a.ts''], a_rec), ([''w'', ''b.ts''], b_rec), ([''w'', ''c.ts''], c_rec)],
      fired = [[a_rec, b_rec, c_rec]], disk = disk_after\<rparr>"

definition after_reject_a :: state where
  "after_reject_a = state_of (rejectFile [''w'', ''a.ts''] auto_session)"

definition after_reject_b :: state where
  "after_reject_b = state_of (rejectFile [''w'', ''b.ts''] auto_session)"

definition after_accept_a :: state where
  "after_accept_a = acceptFile [''w'', ''a.ts''] auto_session"



definition fresh_after :: state where
  "fresh_after = \<lparr>snapshots = snaps0, diffs = [], fired = [], disk = disk_after\<rparr>"

text \<open>\<open>auto_session\<close> after \<^verbatim>\<open>loadProposedChanges\<close> over its empty staging directory,
  and \<open>fresh_after\<close> after \<^verbatim>\<open>computeDiffs\<close> over all snapshots.\<close>

definition refired :: state where
  "refired = auto_session\<lparr>fired := [[a_rec, b_rec, c_rec], [a_rec, b_rec, c_rec]]\<rparr>"

definition computed_ac :: state where
  "computed_ac =
     fresh_after\<lparr>diffs := [([''w'', ''a.ts''], a_rec), ([''w'', ''c.ts''], c_rec)],
                 fired := [[a_rec, c_rec]]\<rparr>"

text \<open>A run in \<open>Ask\<close> mode over the same workspace: the poll sees the marker
  \<^verbatim>\<open>running\<close>, the agent changes the disk, the poll sees \<^verbatim>\<open>idle\<close>.\<close>

definition ask_started :: "watcher \<times> state" where
  "ask_started = pollTick env0 Some Ask (watcher0, init disk_before)"

definition ask_finished :: "watcher \<times> state" where
  "ask_finished = pollTick env0 Some Ask (fst ask_started, (snd ask_started)\<lparr>disk := disk_after\<rparr>)"








section \<open>Facts about the filesystem\<close>

lemma find_set_entry:
  "find_entry (set_entry es s c) t = (if t = s then Some c else find_entry es t)"
  by (induction es s c rule: set_entry.induct) auto

lemma find_remove_entry:
  "find_entry (remove_entry es s) t = (if t = s then None else find_entry es t)"
  by (induction es s rule: remove_entry.induct) auto

lemma write_then_lookup:
  "writeFileSync d p c = Inr d' \<Longrightarrow> lookup d' p = Some (File c)"
  by (induction d p c arbitrary: d' rule: writeFileSync.induct)
     (auto simp: find_set_entry split: option.splits sum.splits if_splits)

lemma write_frame:
  "writeFileSync d p c = Inr d' \<Longrightarrow> q \<noteq> p \<Longrightarrow> file_at d' q = file_at d q"
proof (induction d p c arbitrary: d' q rule: writeFileSync.induct)
  case (4 es s p c)
  show ?case
  proof (cases q)
    case Nil
    with 4 show ?thesis
      by (auto simp: file_at_def split: option.splits sum.splits if_splits)
  next
    case (Cons a r)
    show ?thesis
    proof (cases "a = s")
      case False
      with 4 Cons show ?thesis
        by (auto simp: file_at_def find_set_entry split: option.splits sum.splits if_splits)
    next
      case True
      show ?thesis
      proof (cases "find_entry es s")
        case None
        with 4(2) have p: "p = []" and d': "d' = Dir (set_entry es s (File c))"
          by (auto split: if_splits)
        from 4(3) Cons True p have "r \<noteq> []" by simp
        then obtain b r' where "r = b # r'" by (cases r) auto
        with Cons True None d' show ?thesis
          by (simp add: file_at_def find_set_entry)
      next
        case (Some ch)
        with 4(2) obtain ch' where w: "writeFileSync ch p c = Inr ch'"
          and d': "d' = Dir (set_entry es s ch')"
          by (auto split: sum.splits)
        from 4(3) Cons True have "r \<noteq> p" by simp
        from 4(1)[OF Some w this] have "file_at ch' r = file_at ch r" .
        with Cons True Some d' show ?thesis
          by (simp add: file_at_def find_set_entry)
      qed
    qed
  qed
next
  case (1 x c)
  then obtain a r where "q = a # r" by (cases q) auto
  with 1 show ?case by (auto simp: file_at_def)
qed simp_all

lemma unlink_then_lookup:
  "unlinkSync d p = Inr d' \<Longrightarrow> lookup d' p = None"
proof (induction d p arbitrary: d' rule: unlinkSync.induct)
  case (3 es s)
  then show ?case
    by (auto simp: find_remove_entry split: option.splits node.splits)
next
  case (4 es s t p)
  then show ?case
    by (auto simp: find_set_entry split: option.splits sum.splits)
qed simp_all

lemma unlink_frame:
  "unlinkSync d p = Inr d' \<Longrightarrow> q \<noteq> p \<Longrightarrow> file_at d' q = file_at d q"
proof (induction d p arbitrary: d' q rule: unlinkSync.induct)
  case (3 es s)
  from 3(1) obtain x where f: "find_entry es s = Some (File x)"
    and d': "d' = Dir (remove_entry es s)"
    by (auto split: option.splits node.splits)
  show ?case
  proof (cases q)
    case Nil
    with d' show ?thesis by (simp add: file_at_def)
  next
    case (Cons a r)
    show ?thesis
    proof (cases "a = s")
      case True
      with 3(2) Cons obtain b r' where "r = b # r'" by (cases r) auto
      with Cons True f d' show ?thesis
        by (simp add: file_at_def find_remove_entry)
    next
      case False
      with Cons d' show ?thesis
        by (simp add: file_at_def find_remove_entry)
    qed
  qed
next
  case (4 es s t p)
  from 4(2) obtain ch ch' where ch: "find_entry es s = Some ch"
    and w: "unlinkSync ch (t # p) = Inr ch'" and d': "d' = Dir (set_entry es s ch')"
    by (auto split: option.splits sum.splits)
  show ?case
  proof (cases q)
    case Nil
    with d' show ?thesis by (simp add: file_at_def)
  next
    case (Cons a r)
    show ?thesis
    proof (cases "a = s")
      case False
      with Cons d' show ?thesis
        by (simp add: file_at_def find_set_entry)
    next
      case True
      from 4(3) Cons True have "r \<noteq> t # p" by simp
      from 4(1)[OF ch w this] have "file_at ch' r = file_at ch r" .
      with Cons True ch d' show ?thesis
        by (simp add: file_at_def find_set_entry)
    qed
  qed
qed simp_all

lemma unlink_missing:
  "lookup d p = None \<Longrightarrow> \<exists>e. unlinkSync d p = Inl e"
  by (induction d p rule: unlinkSync.induct) (auto split: option.splits sum.splits)

text \<open>The walks take the listing of a subdirectory and the text of a file from the entry
  they are at. Reading by path gives the same: the node under a name in the listing of
  \<open>dir\<close> is the node at the path of \<open>dir\<close> extended by that name.\<close>

lemma lookup_append:
  "lookup d (p @ q) = (case lookup d p of None \<Rightarrow> None | Some n \<Rightarrow> lookup n q)"
proof (induction d p rule: lookup.induct)
  case (1 n)
  then show ?case by simp
next
  case (2 c s p)
  then show ?case by simp
next
  case (3 es s p)
  then show ?case by (cases "find_entry es s") simp_all
qed

lemma listing_agrees:
  assumes "readdirSync d dir = Inr es" and "find_entry es name = Some n"
  shows "lookup d (dir @ [name]) = Some n"
proof -
  from assms(1) have "lookup d dir = Some (Dir es)"
    by (auto simp: readdirSync_def split: option.splits node.splits)
  with assms(2) show ?thesis by (simp add: lookup_append)
qed

section \<open>Facts about \<^verbatim>\<open>loadProposedChanges\<close>\<close>

lemma stageFile_frame:
  "disk (state_of (stageFile e pd full a s)) = disk s \<and>
   snapshots (state_of (stageFile e pd full a s)) = snapshots s \<and>
   fired (state_of (stageFile e pd full a s)) = fired s"
  by (simp add: stageFile_def Let_def split: sum.splits)

lemma walk_frame:
  "disk (state_of (walk e pd dir es s)) = disk s \<and>
   snapshots (state_of (walk e pd dir es s)) = snapshots s \<and>
   fired (state_of (walk e pd dir es s)) = fired s"
proof (induction e pd dir es s rule: walk.induct)
  case (2 e pd dir name sub rest s)
  then show ?case by (auto split: outcome.splits)
next
  case (3 e pd dir name a rest s)
  show ?case
  proof (cases "stageFile e pd (path_join dir [name]) a s")
    case (Done s')
    with 3[OF Done] stageFile_frame[of e pd "path_join dir [name]" a s] show ?thesis by simp
  next
    case (Threw err s')
    with stageFile_frame[of e pd "path_join dir [name]" a s] show ?thesis by simp
  qed
qed simp

lemma stageFile_records:
  assumes "map_of (diffs (state_of (stageFile e pd full a s))) k = Some d"
  shows "map_of (diffs s) k = Some d \<or>
         (k = actualOf e pd full \<and>
          (\<exists>b. readOrEmpty (disk s) k = Inr b \<and> b \<noteq> a \<and>
               d = proposedDiff e k (path_relative pd full) b a))"
  using assms
  by (auto simp: stageFile_def Let_def AList.update_conv split: sum.splits if_splits)

lemma walk_records:
  assumes "map_of (diffs (state_of (walk e pd dir es s))) k = Some d"
  shows "map_of (diffs s) k = Some d \<or>
         (\<exists>full a b. (full, a) \<in> set (stagedFiles dir es) \<and> k = actualOf e pd full \<and>
               readOrEmpty (disk s) k = Inr b \<and> b \<noteq> a \<and>
               d = proposedDiff e k (path_relative pd full) b a)"
  using assms
proof (induction e pd dir es s rule: walk.induct)
  case (1 e pd dir s)
  then show ?case by simp
next
  case (2 e pd dir name sub rest s)
  show ?case
  proof (cases "walk e pd (path_join dir [name]) sub s")
    case (Threw err s')
    with 2(1) 2(3) show ?thesis by fastforce
  next
    case (Done s')
    with 2(3) have k: "map_of (diffs (state_of (walk e pd dir rest s'))) k = Some d" by simp
    have ds: "disk s' = disk s"
      using walk_frame[of e pd "path_join dir [name]" sub s] Done by simp
    from 2(2)[OF Done k] show ?thesis
    proof
      assume "map_of (diffs s') k = Some d"
      then have "map_of (diffs (state_of (walk e pd (path_join dir [name]) sub s))) k = Some d"
        using Done by simp
      from 2(1)[OF this] show ?thesis by fastforce
    next
      assume "\<exists>full a b. (full, a) \<in> set (stagedFiles dir rest) \<and> k = actualOf e pd full \<and>
               readOrEmpty (disk s') k = Inr b \<and> b \<noteq> a \<and>
               d = proposedDiff e k (path_relative pd full) b a"
      with ds show ?thesis by fastforce
    qed
  qed
next
  case (3 e pd dir name a rest s)
  show ?case
  proof (cases "stageFile e pd (path_join dir [name]) a s")
    case (Threw err s')
    with 3(2) have
      "map_of (diffs (state_of (stageFile e pd (path_join dir [name]) a s))) k = Some d"
      by simp
    from stageFile_records[OF this] show ?thesis by fastforce
  next
    case (Done s')
    with 3(2) have k: "map_of (diffs (state_of (walk e pd dir rest s'))) k = Some d" by simp
    have ds: "disk s' = disk s"
      using stageFile_frame[of e pd "path_join dir [name]" a s] Done by simp
    from 3(1)[OF Done k] show ?thesis
    proof
      assume "map_of (diffs s') k = Some d"
      then have
        "map_of (diffs (state_of (stageFile e pd (path_join dir [name]) a s))) k = Some d"
        using Done by simp
      from stageFile_records[OF this] show ?thesis by fastforce
    next
      assume "\<exists>full a b. (full, a) \<in> set (stagedFiles dir rest) \<and> k = actualOf e pd full \<and>
               readOrEmpty (disk s') k = Inr b \<and> b \<noteq> a \<and>
               d = proposedDiff e k (path_relative pd full) b a"
      with ds show ?thesis by fastforce
    qed
  qed
qed

lemma load_records:
  assumes "map_of (diffs (state_of (loadProposedChanges e pd s))) k = Some d"
  shows "map_of (diffs s) k = Some d \<or>
         (\<exists>es full a b. readdirSync (disk s) pd = Inr es \<and>
               (full, a) \<in> set (stagedFiles pd es) \<and> k = actualOf e pd full \<and>
               readOrEmpty (disk s) k = Inr b \<and> b \<noteq> a \<and>
               d = proposedDiff e k (path_relative pd full) b a)"
proof (cases "existsSync (disk s) pd")
  case False
  with assms show ?thesis by (simp add: loadProposedChanges_def)
next
  case True
  show ?thesis
  proof (cases "readdirSync (disk s) pd")
    case (Inl err)
    with True assms show ?thesis by (simp add: loadProposedChanges_def)
  next
    case (Inr es)
    have "diffs (state_of (loadProposedChanges e pd s)) = diffs (state_of (walk e pd pd es s))"
      using True Inr by (simp add: loadProposedChanges_def fireIfAny_def split: outcome.splits)
    with assms have "map_of (diffs (state_of (walk e pd pd es s))) k = Some d" by simp
    from walk_records[OF this] Inr show ?thesis by fastforce
  qed
qed

lemma load_frame:
  "disk (state_of (loadProposedChanges e pd s)) = disk s \<and>
   snapshots (state_of (loadProposedChanges e pd s)) = snapshots s"
proof (cases "existsSync (disk s) pd")
  case False
  then show ?thesis by (simp add: loadProposedChanges_def)
next
  case True
  show ?thesis
  proof (cases "readdirSync (disk s) pd")
    case (Inl err)
    with True show ?thesis by (simp add: loadProposedChanges_def)
  next
    case (Inr es)
    with True walk_frame[of e pd pd es s] show ?thesis
      by (cases "walk e pd pd es s") (simp_all add: loadProposedChanges_def fireIfAny_def)
  qed
qed

lemma staged_load:
  "loadProposedChanges env0 proposed0 (init disk_staged) = Done staged_session"
  by code_simp

section \<open>Facts about the staged files the walk meets\<close>





lemma load_Done:
  assumes "loadProposedChanges e pd s = Done s'" and "existsSync (disk s) pd"
  shows "\<exists>es s1. readdirSync (disk s) pd = Inr es \<and> walk e pd pd es s = Done s1 \<and>
                 s' = fireIfAny s1"
proof (cases "readdirSync (disk s) pd")
  case (Inl err)
  with assms show ?thesis by (simp add: loadProposedChanges_def)
next
  case (Inr es)
  with assms show ?thesis
    by (cases "walk e pd pd es s") (auto simp: loadProposedChanges_def)
qed

lemma load_Threw:
  assumes "loadProposedChanges e pd s = Threw err s'"
  shows "fired s' = fired s"
proof (cases "readdirSync (disk s) pd")
  case (Inl err)
  with assms show ?thesis by (auto simp: loadProposedChanges_def split: if_splits)
next
  case (Inr es)
  with assms walk_frame[of e pd pd es s] show ?thesis
    by (cases "walk e pd pd es s") (auto simp: loadProposedChanges_def split: if_splits)
qed

lemma exists_is_dir:
  "existsSync d p \<Longrightarrow> (\<exists>err. readdirSync d p = Inl err) \<or> (\<exists>es. readdirSync d p = Inr es)"
  by (cases "readdirSync d p") auto







section \<open>Facts about accepting and rejecting\<close>

lemma update_set: "set (AList.update k v al) \<subseteq> insert (k, v) (set al)"
  by (induction al) auto

lemma keyed_update: "keyed al \<Longrightarrow> filePath v = k \<Longrightarrow> keyed (AList.update k v al)"
  using update_set[of k v al] by (auto simp: keyed_def list_all_iff)

lemma keyed_lookup: "keyed al \<Longrightarrow> map_of al k = Some d \<Longrightarrow> filePath d = k"
  by (fastforce simp: keyed_def list_all_iff dest: map_of_SomeD)

lemma acceptFile_keyed: "keyed (diffs s) \<Longrightarrow> keyed (diffs (acceptFile fp s))"
  by (auto simp: acceptFile_def split: option.splits intro!: keyed_update dest: keyed_lookup)

lemma rejectFile_keyed: "keyed (diffs s) \<Longrightarrow> keyed (diffs (state_of (rejectFile fp s)))"
  by (auto simp: rejectFile_def split: option.splits sum.splits intro!: keyed_update dest: keyed_lookup)

lemma rejectFile_threw: "rejectFile fp s = Threw e s' \<Longrightarrow> s' = s"
  by (auto simp: rejectFile_def split: option.splits sum.splits)

lemma rejectFile_other:
  assumes "q \<noteq> fp"
  shows "map_of (diffs (state_of (rejectFile fp s))) q = map_of (diffs s) q \<and>
         file_at (disk (state_of (rejectFile fp s))) q = file_at (disk s) q"
proof (cases "map_of (diffs s) fp")
  case None
  then show ?thesis by (simp add: rejectFile_def)
next
  case (Some d)
  show ?thesis
  proof (cases "isNew d")
    case True
    with Some assms show ?thesis
      by (cases "unlinkSync (disk s) fp")
         (simp_all add: rejectFile_def AList.update_conv unlink_frame)
  next
    case False
    with Some assms show ?thesis
      by (cases "writeFileSync (disk s) fp (before d)")
         (simp_all add: rejectFile_def AList.update_conv write_frame)
  qed
qed

lemma rejectFile_done:
  assumes "map_of (diffs s) fp = Some d" and "rejectFile fp s = Done s'"
  shows "map_of (diffs s') fp = Some (d\<lparr>status := Rejected\<rparr>) \<and>
         lookup (disk s') fp = (if isNew d then None else Some (File (before d)))"
  using assms
  by (auto simp: rejectFile_def AList.update_conv unlink_then_lookup write_then_lookup
           split: sum.splits if_splits)

lemma acceptFile_other:
  "q \<noteq> fp \<Longrightarrow> map_of (diffs (acceptFile fp s)) q = map_of (diffs s) q"
  by (simp add: acceptFile_def AList.update_conv split: option.splits)

lemma acceptFile_disk: "disk (acceptFile fp s) = disk s"
  by (simp add: acceptFile_def split: option.splits)

lemma acceptEach_disk: "disk (acceptEach ks s) = disk s"
  by (induction ks arbitrary: s) (auto simp: acceptFile_disk split: option.splits)

lemma acceptEach_result:
  "keyed (diffs s) \<Longrightarrow>
   map_of (diffs (acceptEach ks s)) k =
     (case map_of (diffs s) k of
        None \<Rightarrow> None
      | Some d \<Rightarrow> Some (if k \<in> set ks \<and> status d = Pending then d\<lparr>status := Accepted\<rparr> else d))"
proof (induction ks arbitrary: s)
  case Nil
  then show ?case by (simp split: option.splits)
next
  case (Cons k0 ks)
  show ?case
  proof (cases "map_of (diffs s) k0")
    case None
    with Cons show ?thesis by (auto split: option.splits)
  next
    case (Some d0)
    show ?thesis
    proof (cases "status d0 = Pending")
      case False
      with Some Cons show ?thesis by (auto split: option.splits)
    next
      case True
      from keyed_lookup[OF Cons.prems Some] have fp: "filePath d0 = k0" .
      let ?s1 = "acceptFile k0 s"
      have k1: "keyed (diffs ?s1)" using Cons.prems by (rule acceptFile_keyed)
      have r: "acceptEach (k0 # ks) s = acceptEach ks ?s1" using Some True fp by simp
      have at: "map_of (diffs ?s1) k0 = Some (d0\<lparr>status := Accepted\<rparr>)"
        using Some by (simp add: acceptFile_def AList.update_conv)
      show ?thesis
      proof (cases "k = k0")
        case True
        with r Cons.IH[OF k1] at Some \<open>status d0 = Pending\<close> show ?thesis by simp
      next
        case False
        with r Cons.IH[OF k1] acceptFile_other[of k k0 s] show ?thesis
          by (simp split: option.splits)
      qed
    qed
  qed
qed

lemma rejectEach_keyed: "keyed (diffs s) \<Longrightarrow> keyed (diffs (state_of (rejectEach ks s)))"
proof (induction ks arbitrary: s)
  case (Cons k0 ks)
  show ?case
  proof (cases "map_of (diffs s) k0")
    case None
    with Cons show ?thesis by simp
  next
    case (Some d0)
    show ?thesis
    proof (cases "status d0 = Pending")
      case False
      with Some Cons show ?thesis by simp
    next
      case True
      show ?thesis
      proof (cases "rejectFile (filePath d0) s")
        case (Done s1)
        with rejectFile_keyed[OF Cons.prems, of "filePath d0"] have "keyed (diffs s1)" by simp
        from Cons.IH[OF this] Some True Done show ?thesis by simp
      next
        case (Threw e s1)
        with rejectFile_keyed[OF Cons.prems, of "filePath d0"] Some True show ?thesis by simp
      qed
    qed
  qed
qed simp

lemma rejectEach_untouched:
  "keyed (diffs s) \<Longrightarrow>
   k' \<notin> set ks \<or> (\<exists>d. map_of (diffs s) k' = Some d \<and> status d \<noteq> Pending) \<Longrightarrow>
   map_of (diffs (state_of (rejectEach ks s))) k' = map_of (diffs s) k' \<and>
   file_at (disk (state_of (rejectEach ks s))) k' = file_at (disk s) k'"
proof (induction ks arbitrary: s)
  case (Cons k0 ks)
  show ?case
  proof (cases "map_of (diffs s) k0")
    case None
    with Cons show ?thesis by auto
  next
    case (Some d0)
    show ?thesis
    proof (cases "status d0 = Pending")
      case False
      with Some Cons show ?thesis by auto
    next
      case True
      from keyed_lookup[OF Cons.prems(1) Some] have fp: "filePath d0 = k0" .
      from Cons.prems(2) Some True have ne: "k' \<noteq> k0" by auto
      note o = rejectFile_other[OF ne, of s]
      show ?thesis
      proof (cases "rejectFile k0 s")
        case (Threw e s1)
        with o Some True fp show ?thesis by simp
      next
        case (Done s1)
        with rejectFile_keyed[OF Cons.prems(1), of k0] have k1: "keyed (diffs s1)" by simp
        from Cons.prems(2) ne o Done
        have "k' \<notin> set ks \<or> (\<exists>d. map_of (diffs s1) k' = Some d \<and> status d \<noteq> Pending)"
          by auto
        from Cons.IH[OF k1 this] o Done Some True fp show ?thesis by simp
      qed
    qed
  qed
qed simp



section \<open>Facts about the example sessions and the invariant\<close>

lemma auto_run:
  "pollTick env0 Some Auto
     (notify Unlink [''w'', ''c.ts''] (notify Add [''w'', ''b.ts''] (notify Change [''w'', ''a.ts'']
        (fst (pollTick env0 Some Auto (watcher0, init disk_before))))),
      (snd (pollTick env0 Some Auto (watcher0, init disk_before)))\<lparr>disk := disk_after\<rparr>)
   = (\<lparr>active = True, isClaudeActive = False,
       changedFiles = [[''w'', ''a.ts''], [''w'', ''b.ts''], [''w'', ''c.ts'']],
       fsWatcher = Some \<lparr>watched = [''w''], ignored = ignore,
                          listens = [Add, Change, Unlink], closed = True\<rparr>\<rparr>,
      auto_session)"
  by code_simp

lemma auto_compute:
  "computeDiffs env0 (Some [[''w'', ''a.ts''], [''w'', ''b.ts''], [''w'', ''c.ts'']])
     \<lparr>snapshots = snaps0, diffs = [], fired = [], disk = disk_after\<rparr>
   = Done ([a_rec, b_rec, c_rec], auto_session)"
  by code_simp

text \<open>Both places that create records keep every record under its own path.\<close>

lemma computeOne_keyed: "keyed (diffs s) \<Longrightarrow> keyed (diffs (state_of (computeOne e fp s)))"
  by (auto simp: computeOne_def computedDiff_def Let_def split: sum.splits intro!: keyed_update)

lemma computeLoop_keyed: "keyed (diffs s) \<Longrightarrow> keyed (diffs (state_of (computeLoop e fps s)))"
proof (induction fps arbitrary: s)
  case (Cons fp fps)
  show ?case
  proof (cases "computeOne e fp s")
    case (Done s1)
    with computeOne_keyed[OF Cons.prems, of e fp] have "keyed (diffs s1)" by simp
    from Cons.IH[OF this] Done show ?thesis by simp
  next
    case (Threw err s1)
    with computeOne_keyed[OF Cons.prems, of e fp] show ?thesis by simp
  qed
qed simp

lemma stageFile_keyed: "keyed (diffs s) \<Longrightarrow> keyed (diffs (state_of (stageFile e pd full a s)))"
  by (auto simp: stageFile_def proposedDiff_def Let_def split: sum.splits intro!: keyed_update)

lemma walk_keyed: "keyed (diffs s) \<Longrightarrow> keyed (diffs (state_of (walk e pd dir es s)))"
proof (induction e pd dir es s rule: walk.induct)
  case (2 e pd dir name sub rest s)
  then show ?case by (cases "walk e pd (path_join dir [name]) sub s") auto
next
  case (3 e pd dir name a rest s)
  show ?case
  proof (cases "stageFile e pd (path_join dir [name]) a s")
    case (Done s1)
    with stageFile_keyed[OF 3(2), of e pd "path_join dir [name]" a] have "keyed (diffs s1)" by simp
    from 3(1)[OF Done this] Done show ?thesis by simp
  next
    case (Threw err s1)
    with stageFile_keyed[OF 3(2), of e pd "path_join dir [name]" a] show ?thesis by simp
  qed
qed simp

section \<open>Facts about \<^verbatim>\<open>computeDiffs\<close>\<close>

lemma computeOne_frame:
  "disk (state_of (computeOne e fp s)) = disk s \<and>
   snapshots (state_of (computeOne e fp s)) = snapshots s \<and>
   fired (state_of (computeOne e fp s)) = fired s"
  by (simp add: computeOne_def Let_def split: sum.splits)

lemma computeLoop_frame:
  "disk (state_of (computeLoop e fps s)) = disk s \<and>
   snapshots (state_of (computeLoop e fps s)) = snapshots s \<and>
   fired (state_of (computeLoop e fps s)) = fired s"
proof (induction fps arbitrary: s)
  case (Cons fp fps)
  show ?case
  proof (cases "computeOne e fp s")
    case (Done s1)
    with Cons[of s1] computeOne_frame[of e fp s] show ?thesis by simp
  next
    case (Threw err s1)
    with computeOne_frame[of e fp s] show ?thesis by simp
  qed
qed simp

lemma snapshotGet_cong: "snapshots s1 = snapshots s \<Longrightarrow> snapshotGet s1 k = snapshotGet s k"
  by (simp add: snapshotGet_def)



lemma update_all:
  "(\<forall>kd \<in> set al. P (snd kd)) \<Longrightarrow> P v \<Longrightarrow> \<forall>kd \<in> set (AList.update k v al). P (snd kd)"
  using update_set[of k v al] by auto

lemma computeOne_all:
  assumes "\<forall>kd \<in> set (diffs s). P (snd kd)"
    and "\<And>fp b a. b \<noteq> a \<Longrightarrow> P (computedDiff e fp b a)"
  shows "\<forall>kd \<in> set (diffs (state_of (computeOne e fp s))). P (snd kd)"
proof (cases "readOrEmpty (disk s) fp")
  case (Inl err)
  with assms(1) show ?thesis by (simp add: computeOne_def)
next
  case (Inr a)
  show ?thesis
  proof (cases "snapshotGet s fp = a")
    case True
    with Inr assms(1) show ?thesis by (simp add: computeOne_def)
  next
    case False
    from update_all[OF assms(1) assms(2)[OF False]] False Inr
    show ?thesis by (simp add: computeOne_def)
  qed
qed

lemma computeLoop_all:
  "(\<forall>kd \<in> set (diffs s). P (snd kd)) \<Longrightarrow> (\<And>fp b a. b \<noteq> a \<Longrightarrow> P (computedDiff e fp b a)) \<Longrightarrow>
   \<forall>kd \<in> set (diffs (state_of (computeLoop e fps s))). P (snd kd)"
proof (induction fps arbitrary: s)
  case (Cons fp fps)
  have st: "\<forall>kd \<in> set (diffs (state_of (computeOne e fp s))). P (snd kd)"
    by (rule computeOne_all[OF Cons.prems(1)]) (rule Cons.prems(2))
  show ?case
  proof (cases "computeOne e fp s")
    case (Done s1)
    with st have "\<forall>kd \<in> set (diffs s1). P (snd kd)" by simp
    from Cons.IH[OF this Cons.prems(2)] Done show ?thesis by simp
  next
    case (Threw err s1)
    with st show ?thesis by simp
  qed
qed simp

lemma computeDiffs_final:
  "diffs (final (computeDiffs e cp s)) = diffs (state_of (computeLoop e (pathsOf cp s) (s\<lparr>diffs := []\<rparr>)))"
  by (cases "computeLoop e (pathsOf cp s) (s\<lparr>diffs := []\<rparr>)")
     (simp_all add: computeDiffs_def pathsOf_def Let_def fireIfAny_def)

lemma computeDiffs_all:
  assumes "\<And>fp b a. b \<noteq> a \<Longrightarrow> P (computedDiff e fp b a)"
  shows "\<forall>kd \<in> set (diffs (final (computeDiffs e cp s))). P (snd kd)"
  unfolding computeDiffs_final
  by (rule computeLoop_all) (simp_all add: assms)

lemma computedDiff_classified: "b \<noteq> a \<Longrightarrow> classified (computedDiff e fp b a)"
  by (auto simp: classified_def computedDiff_def Let_def)

lemma computedDiff_pending: "status (computedDiff e fp b a) = Pending"
  by (simp add: computedDiff_def Let_def)

section \<open>Facts about what the calls keep\<close>



lemma load_diffs:
  "diffs (state_of (loadProposedChanges e pd s)) =
     (if existsSync (disk s) pd then
        (case readdirSync (disk s) pd of
           Inl err \<Rightarrow> diffs s
         | Inr es \<Rightarrow> diffs (state_of (walk e pd pd es s)))
      else diffs s)"
proof (cases "readdirSync (disk s) pd")
  case (Inl err)
  then show ?thesis by (simp add: loadProposedChanges_def)
next
  case (Inr es)
  then show ?thesis
    by (cases "walk e pd pd es s") (simp_all add: loadProposedChanges_def fireIfAny_def)
qed




lemma computeDiffs_Done:
  assumes "computeDiffs e cp s = Done (r, s')"
  shows "\<exists>s1. computeLoop e (pathsOf cp s) (s\<lparr>diffs := []\<rparr>) = Done s1 \<and> s' = fireIfAny s1 \<and>
              r = getPendingDiffs s'"
proof (cases "computeLoop e (pathsOf cp s) (s\<lparr>diffs := []\<rparr>)")
  case (Done s1)
  with assms show ?thesis by (auto simp: computeDiffs_def pathsOf_def Let_def)
next
  case (Threw err s1)
  with assms show ?thesis by (simp add: computeDiffs_def pathsOf_def Let_def)
qed

lemma computeDiffs_Threw:
  assumes "computeDiffs e cp s = Threw err s'"
  shows "computeLoop e (pathsOf cp s) (s\<lparr>diffs := []\<rparr>) = Threw err s'"
proof (cases "computeLoop e (pathsOf cp s) (s\<lparr>diffs := []\<rparr>)")
  case (Done s1)
  with assms show ?thesis by (simp add: computeDiffs_def pathsOf_def Let_def)
next
  case (Threw err1 s1)
  with assms show ?thesis by (simp add: computeDiffs_def pathsOf_def Let_def)
qed


section \<open>Records stay under their own paths\<close>

text \<open>A fresh manager has no records, \<^verbatim>\<open>computeDiffs\<close> starts from none, and every
  other call keeps each record under its own path: the hypothesis \<open>keyed\<close> of the
  claims about the bulk operations holds in every state the class can be in.\<close>

lemma keyed_empty: "keyed []"
  by (simp add: keyed_def)

lemma keyed_computeDiffs: "keyed (diffs (final (computeDiffs e cp s)))"
  unfolding computeDiffs_final
  by (rule computeLoop_keyed) (simp add: keyed_def)

lemma keyed_load:
  "keyed (diffs s) \<Longrightarrow> keyed (diffs (state_of (loadProposedChanges e pd s)))"
  using walk_keyed[of s e pd pd]
  by (simp add: load_diffs split: sum.splits)

lemma acceptEach_keyed: "keyed (diffs s) \<Longrightarrow> keyed (diffs (acceptEach ks s))"
  by (induction ks arbitrary: s) (auto simp: acceptFile_keyed split: option.splits)

lemma keyed_acceptAll: "keyed (diffs s) \<Longrightarrow> keyed (diffs (acceptAll s))"
  by (simp add: acceptAll_def acceptEach_keyed)

lemma keyed_rejectAll: "keyed (diffs s) \<Longrightarrow> keyed (diffs (state_of (rejectAll s)))"
  by (simp add: rejectAll_def rejectEach_keyed)

lemma keyed_clearDiffs: "keyed (diffs (clearDiffs s))"
  by (simp add: clearDiffs_def keyed_def)

section \<open>Facts about the activity monitor\<close>

text \<open>
  Starting in \<open>Ask\<close> mode empties the set of changed paths and opens no watcher; a
  watcher left from an earlier run is closed and reports nothing; and finishing outside
  \<open>Propose\<close> mode with an empty set of changed paths computes diffs over no path at
  all, which leaves the map of records empty.
\<close>

lemma ask_start_opens_no_watcher:
  "changedFiles (fst (onClaudeStarted e Ask root ws)) = [] \<and>
   fsWatcher (fst (onClaudeStarted e Ask root ws)) = fsWatcher (fst ws) \<and>
   isClaudeActive (fst (onClaudeStarted e Ask root ws))"
  by (simp add: onClaudeStarted_def Let_def)

lemma finish_closes_watcher:
  "fsWatcher (fst (onClaudeFinished e m root pd ws)) = None \<or>
   (\<exists>fw. fsWatcher (fst (onClaudeFinished e m root pd ws)) = Some fw \<and> closed fw)"
  by (cases m; cases "fsWatcher (fst ws)") (simp_all add: onClaudeFinished_def Let_def closeWatcher_def)

lemma no_open_watcher_no_event:
  "fsWatcher w = None \<or> (\<exists>fw. fsWatcher w = Some fw \<and> closed fw) \<Longrightarrow> notify ev fp w = w"
  by (auto simp: notify_def)

lemma computeDiffs_no_paths:
  "computeDiffs e (Some []) s = Done ([], s\<lparr>diffs := []\<rparr>)"
  by (simp add: computeDiffs_def fireIfAny_def getPendingDiffs_def Let_def)

lemma finish_without_observed_paths:
  "changedFiles (fst ws) = [] \<Longrightarrow> m \<noteq> Propose \<Longrightarrow>
   snd (onClaudeFinished e m root pd ws) = Done ((snd ws)\<lparr>diffs := []\<rparr>)"
  by (cases m; cases "fsWatcher (fst ws)")
     (simp_all add: onClaudeFinished_def Let_def closeWatcher_def computeDiffs_no_paths)

section \<open>Claim C1: the end of a run in \<open>Ask\<close> mode\<close>

text \<open>
  Claim C1 says that at the end of a run in \<open>Ask\<close> mode \<^verbatim>\<open>computeDiffs\<close> goes
  over all snapshotted paths, so that every changed file gets a pending record. The code
  passes the set of observed paths, which is empty in this mode. In the run below the
  snapshot holds \<^verbatim>\<open>a.ts\<close> and \<^verbatim>\<open>c.ts\<close>, the agent edits the one and deletes the
  other, and the run ends with no record and no notification; \<^verbatim>\<open>computeDiffs\<close>
  without an argument, in the same state, makes the two records.
\<close>

theorem ask_mode_run_yields_no_record:
  "ask_started =
     (watcher0\<lparr>isClaudeActive := True\<rparr>,
      \<lparr>snapshots = snaps0, diffs = [], fired = [], disk = disk_before\<rparr>) \<and>
   ask_finished = (watcher0, fresh_after) \<and>
   diffs fresh_after = [] \<and> fired fresh_after = [] \<and>
   snapshotGet fresh_after [''w'', ''a.ts''] = ''hello'' \<and>
   readOrEmpty (disk fresh_after) [''w'', ''a.ts''] = Inr ''hello world'' \<and>
   computeDiffs env0 (Some (changedFiles (fst ask_started))) fresh_after = Done ([], fresh_after) \<and>
   computeDiffs env0 None fresh_after = Done ([a_rec, c_rec], computed_ac)"
  by code_simp

section \<open>Claim C2: which records \<^verbatim>\<open>computeDiffs\<close> leaves\<close>




section \<open>Claim C3: records that are no longer pending\<close>

text \<open>
  Claim C3, as amended. In a session whose records are stored under their own paths, let
  \<open>d\<close> be a record at \<open>q\<close> that is accepted or rejected. \<^verbatim>\<open>acceptAll\<close> and
  \<^verbatim>\<open>rejectAll\<close> leave \<open>d\<close> as it is, and the text of the file at \<open>q\<close> too
  (\<^verbatim>\<open>acceptAll\<close> leaves the whole disk; \<^verbatim>\<open>rejectAll\<close> also when it raises).
\<close>

theorem bulk_operations_skip_terminal_records:
  assumes "keyed (diffs s)" and "map_of (diffs s) q = Some d" and "status d \<noteq> Pending"
  shows "map_of (diffs (acceptAll s)) q = Some d \<and>
         disk (acceptAll s) = disk s \<and>
         map_of (diffs (state_of (rejectAll s))) q = Some d \<and>
         file_at (disk (state_of (rejectAll s))) q = file_at (disk s) q"
proof -
  have a: "map_of (diffs (acceptAll s)) q = Some d"
    using acceptEach_result[OF assms(1), of "map fst (diffs s)" q] assms(2,3)
    by (simp add: acceptAll_def)
  have b: "disk (acceptAll s) = disk s"
    by (simp add: acceptAll_def acceptEach_disk)
  have c: "map_of (diffs (state_of (rejectAll s))) q = Some d \<and>
           file_at (disk (state_of (rejectAll s))) q = file_at (disk s) q"
    using rejectEach_untouched[OF assms(1), of q "map fst (diffs s)"] assms(2,3)
    by (simp add: rejectAll_def)
  from a b c show ?thesis by blast
qed

theorem bulk_operations_skip_terminal_records_witness:
  "keyed (diffs after_accept_a) \<and>
   map_of (diffs after_accept_a) [''w'', ''a.ts''] = Some (a_rec\<lparr>status := Accepted\<rparr>) \<and>
   status (a_rec\<lparr>status := Accepted\<rparr>) \<noteq> Pending \<and>
   map_of (diffs (acceptAll after_accept_a)) [''w'', ''a.ts''] = Some (a_rec\<lparr>status := Accepted\<rparr>) \<and>
   disk (acceptAll after_accept_a) = disk after_accept_a \<and>
   map_of (diffs (state_of (rejectAll after_accept_a))) [''w'', ''a.ts'']
     = Some (a_rec\<lparr>status := Accepted\<rparr>) \<and>
   file_at (disk (state_of (rejectAll after_accept_a))) [''w'', ''a.ts'']
     = file_at (disk after_accept_a) [''w'', ''a.ts'']"
proof -
  have h1: "keyed (diffs after_accept_a)" by code_simp
  have h2: "map_of (diffs after_accept_a) [''w'', ''a.ts''] = Some (a_rec\<lparr>status := Accepted\<rparr>)"
    by code_simp
  have h3: "status (a_rec\<lparr>status := Accepted\<rparr>) \<noteq> Pending" by simp
  from bulk_operations_skip_terminal_records[OF h1 h2 h3] h1 h2 h3 show ?thesis by blast
qed

text \<open>
  Claim C3 as first stated also covered the single-file calls, which do not look at the
  status. A rejected record becomes accepted by \<^verbatim>\<open>acceptFile\<close>; an accepted record
  becomes rejected by \<^verbatim>\<open>rejectFile\<close>, which puts the old text back on disk.
\<close>

theorem single_file_operations_counterexample:
  "map_of (diffs after_reject_a) [''w'', ''a.ts''] = Some (a_rec\<lparr>status := Rejected\<rparr>) \<and>
   map_of (diffs (acceptFile [''w'', ''a.ts''] after_reject_a)) [''w'', ''a.ts'']
     = Some (a_rec\<lparr>status := Accepted\<rparr>) \<and>
   map_of (diffs after_accept_a) [''w'', ''a.ts''] = Some (a_rec\<lparr>status := Accepted\<rparr>) \<and>
   file_at (disk after_accept_a) [''w'', ''a.ts''] = Some ''hello world'' \<and>
   map_of (diffs (state_of (rejectFile [''w'', ''a.ts''] after_accept_a))) [''w'', ''a.ts'']
     = Some (a_rec\<lparr>status := Rejected\<rparr>) \<and>
   file_at (disk (state_of (rejectFile [''w'', ''a.ts''] after_accept_a))) [''w'', ''a.ts'']
     = Some ''hello''"
  by code_simp

section \<open>Claim C4: failures during the bulk operations\<close>




section \<open>Claim C5: what rejecting one file does\<close>

text \<open>
  Claim C5, as amended. Let \<open>d\<close> be the record stored for \<open>fp\<close>. If \<^verbatim>\<open>rejectFile\<close>
  returns, that is, if the write or the delete has succeeded, the record is marked
  rejected, and the file at \<open>fp\<close> is gone when \<open>isNew\<close> is set and holds exactly
  \<open>before\<close> otherwise. If it raises, the error is passed on and the manager holds
  what it held: the records with their statuses, the snapshots and the notifications.
\<close>

theorem rejectFile_restores_or_deletes:
  assumes "map_of (diffs s) fp = Some d"
  shows "(rejectFile fp s = Done s' \<longrightarrow>
            map_of (diffs s') fp = Some (d\<lparr>status := Rejected\<rparr>) \<and>
            (if isNew d then \<not> existsSync (disk s') fp
             else readFileSync (disk s') fp = Inr (before d))) \<and>
         (rejectFile fp s = Threw err s' \<longrightarrow>
            diffs s' = diffs s \<and> snapshots s' = snapshots s \<and> fired s' = fired s)"
proof -
  have a: "rejectFile fp s = Done s' \<longrightarrow>
            map_of (diffs s') fp = Some (d\<lparr>status := Rejected\<rparr>) \<and>
            (if isNew d then \<not> existsSync (disk s') fp
             else readFileSync (disk s') fp = Inr (before d))"
    using rejectFile_done[OF assms, of s'] by (auto simp: existsSync_def readFileSync_def)
  have b: "rejectFile fp s = Threw err s' \<longrightarrow>
            diffs s' = diffs s \<and> snapshots s' = snapshots s \<and> fired s' = fired s"
    using rejectFile_threw by blast
  from a b show ?thesis ..
qed

theorem rejectFile_restores_or_deletes_witness:
  "map_of (diffs auto_session) [''w'', ''a.ts''] = Some a_rec \<and> \<not> isNew a_rec \<and>
   rejectFile [''w'', ''a.ts''] auto_session = Done after_reject_a \<and>
   map_of (diffs after_reject_a) [''w'', ''a.ts''] = Some (a_rec\<lparr>status := Rejected\<rparr>) \<and>
   readFileSync (disk after_reject_a) [''w'', ''a.ts''] = Inr (before a_rec) \<and>
   map_of (diffs auto_session) [''w'', ''b.ts''] = Some b_rec \<and> isNew b_rec \<and>
   rejectFile [''w'', ''b.ts''] auto_session = Done after_reject_b \<and>
   map_of (diffs after_reject_b) [''w'', ''b.ts''] = Some (b_rec\<lparr>status := Rejected\<rparr>) \<and>
   \<not> existsSync (disk after_reject_b) [''w'', ''b.ts''] \<and>
   map_of (diffs staged_session) [''w'', ''new.ts''] = Some new_rec \<and>
   rejectFile [''w'', ''new.ts''] staged_session = Threw ENOENT staged_session \<and>
   map_of (diffs staged_session) [''w'', ''new.ts''] = Some new_rec \<and>
   status new_rec = Pending"
proof -
  have h1: "map_of (diffs auto_session) [''w'', ''a.ts''] = Some a_rec" by code_simp
  have h2: "\<not> isNew a_rec" by code_simp
  have h3: "rejectFile [''w'', ''a.ts''] auto_session = Done after_reject_a" by code_simp
  have h4: "map_of (diffs auto_session) [''w'', ''b.ts''] = Some b_rec" by code_simp
  have h5: "isNew b_rec" by code_simp
  have h7: "rejectFile [''w'', ''b.ts''] auto_session = Done after_reject_b" by code_simp
  have h8: "map_of (diffs staged_session) [''w'', ''new.ts''] = Some new_rec" by code_simp
  have h9: "rejectFile [''w'', ''new.ts''] staged_session = Threw ENOENT staged_session"
    by code_simp
  from rejectFile_restores_or_deletes[OF h1, of after_reject_a] h2 h3
  have A: "map_of (diffs after_reject_a) [''w'', ''a.ts''] = Some (a_rec\<lparr>status := Rejected\<rparr>) \<and>
   readFileSync (disk after_reject_a) [''w'', ''a.ts''] = Inr (before a_rec)"
    by simp
  from rejectFile_restores_or_deletes[OF h4, of after_reject_b] h5 h7
  have B: "map_of (diffs after_reject_b) [''w'', ''b.ts''] = Some (b_rec\<lparr>status := Rejected\<rparr>) \<and>
   \<not> existsSync (disk after_reject_b) [''w'', ''b.ts'']"
    by simp
  have h10: "status new_rec = Pending" by code_simp
  from rejectFile_restores_or_deletes[OF h8, of staged_session ENOENT] h9
  have C: "diffs staged_session = diffs staged_session \<and>
           snapshots staged_session = snapshots staged_session \<and>
           fired staged_session = fired staged_session" by blast
  from A B C h1 h2 h3 h4 h5 h7 h8 h9 h10 show ?thesis by blast
qed

text \<open>
  Claim C5 as first stated promised a rejected status for every record. For the record of a
  newly staged file, whose real file does not exist, the deletion raises and the record
  stays pending.
\<close>

theorem rejectFile_new_counterexample:
  "map_of (diffs staged_session) [''w'', ''new.ts''] = Some new_rec \<and> isNew new_rec \<and>
   status new_rec = Pending \<and>
   rejectFile [''w'', ''new.ts''] staged_session = Threw ENOENT staged_session \<and>
   map_of (diffs (state_of (rejectFile [''w'', ''new.ts''] staged_session))) [''w'', ''new.ts'']
     = Some new_rec \<and>
   status new_rec \<noteq> Rejected"
  by code_simp

section \<open>Claim C6: the classification of records\<close>

text \<open>
  Claim C6, as amended. Every record in the map after \<^verbatim>\<open>computeDiffs\<close> (returned or
  raised) has \<open>before \<noteq> after\<close>, never both flags, \<open>isNew\<close> exactly when \<open>before\<close>
  is empty and \<open>after\<close> is not, and \<open>isDeleted\<close> exactly when \<open>before\<close> is not
  empty and \<open>after\<close> is. Every record that \<^verbatim>\<open>loadProposedChanges\<close> has put into the
  map has \<open>before \<noteq> after\<close>, never both flags, the same \<open>isNew\<close>, and
  \<open>isDeleted\<close> false whatever the texts are.
\<close>

theorem records_are_classified:
  "(map_of (diffs (final (computeDiffs e cp s))) k = Some d \<longrightarrow> classified d) \<and>
   (map_of (diffs (state_of (loadProposedChanges e pd s))) k = Some d \<and>
    map_of (diffs s) k \<noteq> Some d \<longrightarrow> classified_staged d)"
proof -
  have a: "map_of (diffs (final (computeDiffs e cp s))) k = Some d \<longrightarrow> classified d"
  proof
    assume "map_of (diffs (final (computeDiffs e cp s))) k = Some d"
    then have "(k, d) \<in> set (diffs (final (computeDiffs e cp s)))" by (rule map_of_SomeD)
    with computeDiffs_all[of classified e cp s] computedDiff_classified
    show "classified d" by fastforce
  qed
  have b: "map_of (diffs (state_of (loadProposedChanges e pd s))) k = Some d \<and>
    map_of (diffs s) k \<noteq> Some d \<longrightarrow> classified_staged d"
  proof (intro impI, elim conjE)
    assume m: "map_of (diffs (state_of (loadProposedChanges e pd s))) k = Some d"
      and n: "map_of (diffs s) k \<noteq> Some d"
    from load_records[OF m] n obtain full x b where
      "b \<noteq> x" "d = proposedDiff e k (path_relative pd full) b x" by blast
    then show "classified_staged d" by (auto simp: classified_staged_def proposedDiff_def)
  qed
  from a b show ?thesis ..
qed

theorem records_are_classified_witness:
  "map_of (diffs (final (computeDiffs env0 None fresh_after))) [''w'', ''c.ts''] = Some c_rec \<and>
   classified c_rec \<and>
   map_of (diffs (state_of (loadProposedChanges env0 proposed0 (init disk_staged))))
     [''w'', ''old.ts''] = Some old_rec \<and>
   map_of (diffs (init disk_staged)) [''w'', ''old.ts''] \<noteq> Some old_rec \<and>
   classified_staged old_rec"
proof -
  have h1: "map_of (diffs (final (computeDiffs env0 None fresh_after))) [''w'', ''c.ts''] = Some c_rec"
    by code_simp
  have h2: "map_of (diffs (state_of (loadProposedChanges env0 proposed0 (init disk_staged))))
     [''w'', ''old.ts''] = Some old_rec" by code_simp
  have h3: "map_of (diffs (init disk_staged)) [''w'', ''old.ts''] \<noteq> Some old_rec" by code_simp
  from records_are_classified[of env0 None fresh_after "[''w'', ''c.ts'']" c_rec] h1
  have A: "classified c_rec" by blast
  from records_are_classified[of env0 _ "init disk_staged" "[''w'', ''old.ts'']" old_rec proposed0]
    h2 h3
  have B: "classified_staged old_rec" by blast
  from A B h1 h2 h3 show ?thesis by blast
qed

text \<open>
  Claim C6 as first stated gave staged records the full rule for \<open>isDeleted\<close>. A staged
  empty file over a real file with text yields a record with \<open>before\<close> non-empty,
  \<open>after\<close> empty and \<open>isDeleted\<close> false.
\<close>

theorem staged_deletion_counterexample:
  "loadProposedChanges env0 proposed0 (init disk_staged) = Done staged_session \<and>
   map_of (diffs staged_session) [''w'', ''old.ts''] = Some old_rec \<and>
   before old_rec = ''abc'' \<and> after old_rec = '''' \<and> \<not> isDeleted old_rec \<and>
   \<not> classified old_rec"
  by code_simp

section \<open>Claim C7: the notification\<close>

text \<open>
  Claim C7, as amended. A call logs at most one notification. When \<^verbatim>\<open>computeDiffs\<close>
  returns, every record in the map is a pending one it has just made, these are the value
  returned, and the notification carrying them is fired exactly when there is at least one.
  When \<^verbatim>\<open>loadProposedChanges\<close> returns, the notification is fired exactly when the
  staging directory exists and the map is not empty afterwards, whether or not the call
  added a record. A call that raises fires nothing.
\<close>

theorem diffs_ready_fires_at_most_once:
  "(computeDiffs e cp s = Done (r, s') \<longrightarrow>
      r = getPendingDiffs s' \<and> getPendingDiffs s' = map snd (diffs s') \<and>
      fired s' = (if diffs s' = [] then fired s else fired s @ [map snd (diffs s')])) \<and>
   (computeDiffs e cp s = Threw err s' \<longrightarrow> fired s' = fired s) \<and>
   (loadProposedChanges e pd s = Done s' \<longrightarrow>
      fired s' = (if existsSync (disk s) pd \<and> diffs s' \<noteq> []
                  then fired s @ [getPendingDiffs s'] else fired s)) \<and>
   (loadProposedChanges e pd s = Threw err s' \<longrightarrow> fired s' = fired s)"
proof -
  have a: "computeDiffs e cp s = Done (r, s') \<longrightarrow>
      r = getPendingDiffs s' \<and> getPendingDiffs s' = map snd (diffs s') \<and>
      fired s' = (if diffs s' = [] then fired s else fired s @ [map snd (diffs s')])"
  proof
    assume d: "computeDiffs e cp s = Done (r, s')"
    from computeDiffs_Done[OF d] obtain s1 where
      l: "computeLoop e (pathsOf cp s) (s\<lparr>diffs := []\<rparr>) = Done s1" and f: "s' = fireIfAny s1"
      and r: "r = getPendingDiffs s'" by blast
    from computeLoop_frame[of e "pathsOf cp s" "s\<lparr>diffs := []\<rparr>"] l
    have fr: "fired s1 = fired s" by simp
    from computeDiffs_all[of "\<lambda>d. status d = Pending" e cp s] d
    have "\<forall>kd \<in> set (diffs s'). status (snd kd) = Pending"
      by (simp add: computedDiff_pending)
    then have p: "getPendingDiffs s' = map snd (diffs s')"
      by (simp add: getPendingDiffs_def filter_id_conv)
    have ds: "diffs s' = diffs s1" using f by (simp add: fireIfAny_def)
    have "fired s' = (if diffs s1 = [] then fired s1 else fired s1 @ [getPendingDiffs s1])"
      using f by (simp add: fireIfAny_def)
    moreover have "getPendingDiffs s1 = getPendingDiffs s'"
      using ds by (simp add: getPendingDiffs_def)
    ultimately have "fired s' = (if diffs s' = [] then fired s else fired s @ [map snd (diffs s')])"
      using fr ds p by simp
    with r p show "r = getPendingDiffs s' \<and> getPendingDiffs s' = map snd (diffs s') \<and>
      fired s' = (if diffs s' = [] then fired s else fired s @ [map snd (diffs s')])" by simp
  qed
  have b: "computeDiffs e cp s = Threw err s' \<longrightarrow> fired s' = fired s"
  proof
    assume "computeDiffs e cp s = Threw err s'"
    from computeDiffs_Threw[OF this] computeLoop_frame[of e "pathsOf cp s" "s\<lparr>diffs := []\<rparr>"]
    show "fired s' = fired s" by simp
  qed
  have c: "loadProposedChanges e pd s = Done s' \<longrightarrow>
      fired s' = (if existsSync (disk s) pd \<and> diffs s' \<noteq> []
                  then fired s @ [getPendingDiffs s'] else fired s)"
  proof
    assume d: "loadProposedChanges e pd s = Done s'"
    show "fired s' = (if existsSync (disk s) pd \<and> diffs s' \<noteq> []
                  then fired s @ [getPendingDiffs s'] else fired s)"
    proof (cases "existsSync (disk s) pd")
      case False
      with d show ?thesis by (simp add: loadProposedChanges_def)
    next
      case True
      from load_Done[OF d True] obtain es s1 where
        w: "walk e pd pd es s = Done s1" and f: "s' = fireIfAny s1" by blast
      from walk_frame[of e pd pd es s] w have fr: "fired s1 = fired s" by simp
      have ds: "diffs s' = diffs s1" using f by (simp add: fireIfAny_def)
      then have gp: "getPendingDiffs s1 = getPendingDiffs s'" by (simp add: getPendingDiffs_def)
      have "fired s' = (if diffs s1 = [] then fired s1 else fired s1 @ [getPendingDiffs s1])"
        using f by (simp add: fireIfAny_def)
      with fr ds gp True show ?thesis by simp
    qed
  qed
  have d: "loadProposedChanges e pd s = Threw err s' \<longrightarrow> fired s' = fired s"
    using load_Threw by blast
  from a b c d show ?thesis by blast
qed

theorem diffs_ready_fires_at_most_once_witness:
  "computeDiffs env0 None fresh_after = Done ([a_rec, c_rec], computed_ac) \<and>
   fired computed_ac
     = (if diffs computed_ac = [] then fired fresh_after
        else fired fresh_after @ [map snd (diffs computed_ac)]) \<and>
   computeDiffs env0 (Some []) fresh_after = Done ([], fresh_after) \<and>
   computeDiffs env0 (Some [[''w'']]) fresh_after = Threw EISDIR fresh_after \<and>
   loadProposedChanges env0 proposed0 (init disk_staged) = Done staged_session \<and>
   fired staged_session
     = (if existsSync (disk (init disk_staged)) proposed0 \<and> diffs staged_session \<noteq> []
        then fired (init disk_staged) @ [getPendingDiffs staged_session]
        else fired (init disk_staged)) \<and>
   loadProposedChanges env0 [''w'', ''a.ts''] fresh_after = Threw ENOTDIR fresh_after \<and>
   fired fresh_after = fired fresh_after"
proof -
  have h1: "computeDiffs env0 None fresh_after = Done ([a_rec, c_rec], computed_ac)"
    by code_simp
  have h2: "computeDiffs env0 (Some []) fresh_after = Done ([], fresh_after)" by code_simp
  have h3: "computeDiffs env0 (Some [[''w'']]) fresh_after = Threw EISDIR fresh_after"
    by code_simp
  have h4: "loadProposedChanges env0 proposed0 (init disk_staged) = Done staged_session"
    by (rule staged_load)
  have h5: "loadProposedChanges env0 [''w'', ''a.ts''] fresh_after = Threw ENOTDIR fresh_after"
    by code_simp
  from diffs_ready_fires_at_most_once[of env0 None fresh_after "[a_rec, c_rec]" computed_ac] h1
  have A: "fired computed_ac
     = (if diffs computed_ac = [] then fired fresh_after
        else fired fresh_after @ [map snd (diffs computed_ac)])" by blast
  from diffs_ready_fires_at_most_once[of env0 _ "init disk_staged" _ staged_session _ proposed0] h4
  have B: "fired staged_session
     = (if existsSync (disk (init disk_staged)) proposed0 \<and> diffs staged_session \<noteq> []
        then fired (init disk_staged) @ [getPendingDiffs staged_session]
        else fired (init disk_staged))" by blast
  from diffs_ready_fires_at_most_once[of env0 "Some [[''w'']]" fresh_after _ fresh_after EISDIR
      "[''w'', ''a.ts'']"] h3 h5
  have C: "fired fresh_after = fired fresh_after" by blast
  from A B C h1 h2 h3 h4 h5 show ?thesis by blast
qed

text \<open>
  Claim C7 as first stated tied the notification of \<^verbatim>\<open>loadProposedChanges\<close> to a new
  record. Over an empty staging directory, with three records already in the map, the call
  adds no record and fires once more.
\<close>

theorem load_fires_without_new_record_counterexample:
  "existsSync (disk auto_session) proposed0 \<and>
   readdirSync (disk auto_session) proposed0 = Inr DNil \<and>
   loadProposedChanges env0 proposed0 auto_session = Done refired \<and>
   diffs refired = diffs auto_session \<and>
   fired auto_session = [[a_rec, b_rec, c_rec]] \<and>
   fired refired = [[a_rec, b_rec, c_rec], [a_rec, b_rec, c_rec]]"
  by code_simp

section \<open>Claim C8: what a staged record holds\<close>



section \<open>Claim C9: accepting a file\<close>

text \<open>
  Claim C9. \<^verbatim>\<open>acceptFile\<close> neither writes the disk nor depends on it: it marks the
  record accepted and sets the snapshot of the path to the record's \<open>after\<close>, and leaves
  every other record and snapshot alone. So for a record that \<^verbatim>\<open>loadProposedChanges\<close>
  has just made, accepting it leaves the real file with the text that is the record's
  \<open>before\<close> (which differs from the staged \<open>after\<close>).
\<close>

theorem acceptFile_never_touches_disk:
  "disk (acceptFile fp s) = disk s \<and>
   fired (acceptFile fp s) = fired s \<and>
   acceptFile fp (s\<lparr>disk := dk\<rparr>) = (acceptFile fp s)\<lparr>disk := dk\<rparr> \<and>
   (k \<noteq> fp \<longrightarrow> map_of (diffs (acceptFile fp s)) k = map_of (diffs s) k \<and>
                map_of (snapshots (acceptFile fp s)) k = map_of (snapshots s) k) \<and>
   (map_of (diffs s) fp = Some d \<longrightarrow>
      map_of (diffs (acceptFile fp s)) fp = Some (d\<lparr>status := Accepted\<rparr>) \<and>
      map_of (snapshots (acceptFile fp s)) fp = Some (after d)) \<and>
   (loadProposedChanges e pd s0 = Done s \<and> map_of (diffs s) fp = Some d \<and>
    map_of (diffs s0) fp \<noteq> Some d \<longrightarrow>
      readOrEmpty (disk (acceptFile fp s)) fp = Inr (before d) \<and> after d \<noteq> before d)"
proof -
  have a: "disk (acceptFile fp s) = disk s" "fired (acceptFile fp s) = fired s"
    by (simp_all add: acceptFile_def split: option.splits)
  have b: "acceptFile fp (s\<lparr>disk := dk\<rparr>) = (acceptFile fp s)\<lparr>disk := dk\<rparr>"
    by (simp add: acceptFile_def split: option.splits)
  have c: "k \<noteq> fp \<longrightarrow> map_of (diffs (acceptFile fp s)) k = map_of (diffs s) k \<and>
                map_of (snapshots (acceptFile fp s)) k = map_of (snapshots s) k"
    by (simp add: acceptFile_def AList.update_conv split: option.splits)
  have d: "map_of (diffs s) fp = Some d \<longrightarrow>
      map_of (diffs (acceptFile fp s)) fp = Some (d\<lparr>status := Accepted\<rparr>) \<and>
      map_of (snapshots (acceptFile fp s)) fp = Some (after d)"
    by (simp add: acceptFile_def AList.update_conv)
  have e: "loadProposedChanges e pd s0 = Done s \<and> map_of (diffs s) fp = Some d \<and>
    map_of (diffs s0) fp \<noteq> Some d \<longrightarrow>
      readOrEmpty (disk (acceptFile fp s)) fp = Inr (before d) \<and> after d \<noteq> before d"
  proof (intro impI, elim conjE)
    assume l: "loadProposedChanges e pd s0 = Done s" and m: "map_of (diffs s) fp = Some d"
      and n: "map_of (diffs s0) fp \<noteq> Some d"
    from l m have "map_of (diffs (state_of (loadProposedChanges e pd s0))) fp = Some d" by simp
    from load_records[OF this] n obtain full x b where
      r: "readOrEmpty (disk s0) fp = Inr b" and ne: "b \<noteq> x"
      and dd: "d = proposedDiff e fp (path_relative pd full) b x"
      by blast
    have "disk s = disk s0" using load_frame[of e pd s0] l by simp
    with r ne dd a(1) show "readOrEmpty (disk (acceptFile fp s)) fp = Inr (before d) \<and> after d \<noteq> before d"
      by (simp add: proposedDiff_def)
  qed
  from a b c d e show ?thesis by blast
qed

theorem acceptFile_never_touches_disk_witness:
  "loadProposedChanges env0 proposed0 (init disk_staged) = Done staged_session \<and>
   map_of (diffs staged_session) [''w'', ''old.ts''] = Some old_rec \<and>
   map_of (diffs (init disk_staged)) [''w'', ''old.ts''] \<noteq> Some old_rec \<and>
   [''w'', ''new.ts''] \<noteq> [''w'', ''old.ts''] \<and>
   before old_rec = ''abc'' \<and>
   disk (acceptFile [''w'', ''old.ts''] staged_session) = disk staged_session \<and>
   map_of (diffs (acceptFile [''w'', ''old.ts''] staged_session)) [''w'', ''new.ts'']
     = map_of (diffs staged_session) [''w'', ''new.ts''] \<and>
   map_of (diffs (acceptFile [''w'', ''old.ts''] staged_session)) [''w'', ''old.ts'']
     = Some (old_rec\<lparr>status := Accepted\<rparr>) \<and>
   map_of (snapshots (acceptFile [''w'', ''old.ts''] staged_session)) [''w'', ''old.ts'']
     = Some (after old_rec) \<and>
   readOrEmpty (disk (acceptFile [''w'', ''old.ts''] staged_session)) [''w'', ''old.ts'']
     = Inr (before old_rec)"
proof -
  have h1: "loadProposedChanges env0 proposed0 (init disk_staged) = Done staged_session"
    by (rule staged_load)
  have h2: "map_of (diffs staged_session) [''w'', ''old.ts''] = Some old_rec" by code_simp
  have h3: "map_of (diffs (init disk_staged)) [''w'', ''old.ts''] \<noteq> Some old_rec" by code_simp
  have h4: "[''w'', ''new.ts''] \<noteq> [''w'', ''old.ts'']" by simp
  have h5: "before old_rec = ''abc''" by code_simp
  from acceptFile_never_touches_disk[of "[''w'', ''old.ts'']" staged_session disk_staged
      "[''w'', ''new.ts'']" old_rec env0 proposed0 "init disk_staged"] h1 h2 h3 h4 h5
  show ?thesis by blast
qed

section \<open>Claim C10: rejecting a new file that is not on disk\<close>

text \<open>
  Claim C10. When a record has \<open>isNew\<close> set and nothing exists at its path (the
  case of a newly staged file, of which only the staging copy exists),
  \<^verbatim>\<open>rejectFile\<close> raises the error of deleting a missing path, and the state is the one
  before the call: the record is as it was, so a pending record stays pending.
\<close>

theorem rejectFile_new_absent_raises:
  assumes "map_of (diffs s) fp = Some d" and "isNew d" and "\<not> existsSync (disk s) fp"
  shows "(\<exists>err. rejectFile fp s = Threw err s) \<and>
         map_of (diffs (state_of (rejectFile fp s))) fp = Some d"
proof -
  from assms(3) have "lookup (disk s) fp = None" by (simp add: existsSync_def)
  from unlink_missing[OF this] obtain err where "unlinkSync (disk s) fp = Inl err" ..
  with assms(1,2) have "rejectFile fp s = Threw err s" by (simp add: rejectFile_def)
  with assms(1) show ?thesis by simp
qed

theorem rejectFile_new_absent_raises_witness:
  "map_of (diffs staged_session) [''w'', ''new.ts''] = Some new_rec \<and> isNew new_rec \<and>
   status new_rec = Pending \<and>
   \<not> existsSync (disk staged_session) [''w'', ''new.ts''] \<and>
   (\<exists>err. rejectFile [''w'', ''new.ts''] staged_session = Threw err staged_session) \<and>
   map_of (diffs (state_of (rejectFile [''w'', ''new.ts''] staged_session))) [''w'', ''new.ts'']
     = Some new_rec"
proof -
  have h1: "map_of (diffs staged_session) [''w'', ''new.ts''] = Some new_rec" by code_simp
  have h2: "isNew new_rec" by code_simp
  have h3: "\<not> existsSync (disk staged_session) [''w'', ''new.ts'']" by code_simp
  have h4: "status new_rec = Pending" by code_simp
  from rejectFile_new_absent_raises[OF h1 h2 h3] h1 h2 h3 h4 show ?thesis by blast
qed

end
